theory Spec2Isabelle
  imports Main "HOL-Library.Word" "HOL-Library.Sublist"
begin

section \<open>Error numbers and the descriptor table\<close>

text \<open>
  The error numbers the reactor core can see, with their Linux values. Every
  value is positive, so a negated error number is always a negative return
  code.
\<close>

datatype errno_code =
  EPERM | ENOENT | EINTR | EIO | EBADF | EAGAIN | ENOMEM | EEXIST | EINVAL
  | EMFILE | ENOSPC | EPIPE | ECONNRESET

fun errno_val :: "errno_code \<Rightarrow> int" where
  "errno_val EPERM = 1"
| "errno_val ENOENT = 2"
| "errno_val EINTR = 4"
| "errno_val EIO = 5"
| "errno_val EBADF = 9"
| "errno_val EAGAIN = 11"
| "errno_val ENOMEM = 12"
| "errno_val EEXIST = 17"
| "errno_val EINVAL = 22"
| "errno_val EMFILE = 24"
| "errno_val ENOSPC = 28"
| "errno_val EPIPE = 32"
| "errno_val ECONNRESET = 104"

text \<open>
  The part of the process state that \<^verbatim>\<open>dup\<close> and \<^verbatim>\<open>close\<close> act on: the open
  descriptors, the limit on descriptor numbers and \<^verbatim>\<open>errno\<close>.
\<close>

record os =
  open_fds :: "int list"
  max_fds :: nat
  errno :: errno_code

text \<open>
  \<^verbatim>\<open>dup(fd)\<close>: fails with EBADF on a descriptor that is not open and with
  EMFILE when no descriptor number below the limit is free; otherwise the
  lowest free number becomes open and is returned.
\<close>

definition dup :: "os \<Rightarrow> int \<Rightarrow> int \<times> os" where
  "dup w fd =
     (if fd \<notin> set (open_fds w) then (- 1, w\<lparr>errno := EBADF\<rparr>)
      else case find (\<lambda>n. n \<notin> set (open_fds w)) (map int [0..<max_fds w]) of
             None \<Rightarrow> (- 1, w\<lparr>errno := EMFILE\<rparr>)
           | Some n \<Rightarrow> (n, w\<lparr>open_fds := n # open_fds w\<rparr>))"

section \<open>Faults\<close>

text \<open>
  The ways a call can end other than by returning: a failed \<^verbatim>\<open>assert\<close> (the
  process aborts), an access through a null pointer or to memory that is not
  allocated, and, for the list traversals below, the step bound running out.
\<close>

datatype fault = Assertion | BadAccess | Timeout

definition bindr :: "fault + 'a \<Rightarrow> ('a \<Rightarrow> fault + 'b) \<Rightarrow> fault + 'b" where
  "bindr m f = (case m of Inl e \<Rightarrow> Inl e | Inr x \<Rightarrow> f x)"

section \<open>The I/O buffer\<close>

type_synonym byte = "8 word"

text \<open>
  \<^verbatim>\<open>struct iobuf { size_t sz; size_t len; uint8_t *data; int fds[32]; }\<close>.
  The field \<open>data\<close> is a pointer to a heap block: \<open>None\<close> is NULL, \<open>Some d\<close> a
  block that holds the bytes \<open>d\<close>, so that \<open>length d\<close> is the size it was
  allocated with. Only the first \<open>len\<close> bytes of the block are meaningful.
\<close>

record iobuf =
  sz :: nat
  len :: nat
  data :: "byte list option"
  fds :: "int list"

text \<open>\<^verbatim>\<open>ARRAY_LENGTH(buf->fds)\<close>\<close>

definition ARRAY_LENGTH_fds :: nat where
  "ARRAY_LENGTH_fds = 32"

text \<open>
  The allocator. It has memory for every request, and for a request of no
  bytes \<^verbatim>\<open>malloc\<close> returns a block of no bytes, as glibc does; so \<^verbatim>\<open>malloc\<close>
  returns a block and never NULL. The content of fresh memory is unspecified
  in C; the model fills it with zero bytes and no theorem below reads it.
  \<^verbatim>\<open>realloc\<close> of NULL is \<^verbatim>\<open>malloc\<close>; \<^verbatim>\<open>realloc\<close> of a block to size 0 frees the
  block and returns NULL, as glibc does; any other \<^verbatim>\<open>realloc\<close> keeps the bytes
  that fit into the new size.
\<close>

definition malloc :: "nat \<Rightarrow> byte list" where
  "malloc n = replicate n 0"

fun realloc :: "byte list option \<Rightarrow> nat \<Rightarrow> byte list option" where
  "realloc None n = Some (malloc n)"
| "realloc (Some d) n = (if n = 0 then None else Some (take n d @ malloc (n - length d)))"

text \<open>
  \<^verbatim>\<open>memcpy(p + off, bs, length bs)\<close>: the block after the write. A write
  through NULL or past the end of the block is a fault.
\<close>

definition memcpy :: "byte list option \<Rightarrow> nat \<Rightarrow> byte list \<Rightarrow> fault + byte list option" where
  "memcpy p off bs =
     (case p of
        None \<Rightarrow> Inl BadAccess
      | Some d \<Rightarrow>
          if off + length bs \<le> length d
          then Inr (Some (take off d @ bs @ drop (off + length bs) d))
          else Inl BadAccess)"

text \<open>
  \<^verbatim>\<open>memmove(p + dst, p + src, n)\<close> within one block: the \<open>n\<close> bytes are read
  before any is written. Reading or writing past the end of the block is a
  fault.
\<close>

definition memmove :: "byte list option \<Rightarrow> nat \<Rightarrow> nat \<Rightarrow> nat \<Rightarrow> fault + byte list option" where
  "memmove p dst src n =
     (case p of
        None \<Rightarrow> Inl BadAccess
      | Some d \<Rightarrow>
          if src + n \<le> length d \<and> dst + n \<le> length d
          then Inr (Some (take dst d @ take n (drop src d) @ drop (dst + n) d))
          else Inl BadAccess)"

text \<open>
  \<^verbatim>\<open>iobuf_new(size)\<close>. Its two assertions are on results of \<^verbatim>\<open>malloc\<close>, which
  are blocks here.
\<close>

definition iobuf_new :: "nat \<Rightarrow> iobuf" where
  "iobuf_new size0 =
     \<lparr>sz = size0, len = 0, data = Some (malloc size0),
      fds = replicate ARRAY_LENGTH_fds (- 1)\<rparr>"

definition iobuf_len :: "iobuf \<Rightarrow> nat" where
  "iobuf_len buf = len buf"

text \<open>\<^verbatim>\<open>iobuf_resize\<close>, with its \<^verbatim>\<open>assert(newdata)\<close>.\<close>

definition iobuf_resize :: "iobuf \<Rightarrow> nat \<Rightarrow> fault + iobuf" where
  "iobuf_resize buf to_size =
     (case realloc (data buf) to_size of
        None \<Rightarrow> Inl Assertion
      | Some newdata \<Rightarrow> Inr (buf\<lparr>data := Some newdata, sz := to_size\<rparr>))"

definition iobuf_extend :: "iobuf \<Rightarrow> nat \<Rightarrow> fault + iobuf" where
  "iobuf_extend buf extra =
     (let newsize = len buf + extra
      in if newsize > sz buf then iobuf_resize buf newsize else Inr buf)"

text \<open>
  \<^verbatim>\<open>iobuf_take_data\<close>: the caller receives the old block; the buffer gets a
  fresh block of \<open>buf->sz\<close> bytes (\<^verbatim>\<open>realloc(NULL, buf->sz)\<close>).
\<close>

definition iobuf_take_data :: "iobuf \<Rightarrow> fault + (byte list option \<times> iobuf)" where
  "iobuf_take_data buf =
     (let d = data buf;
          buf1 = buf\<lparr>data := None, len := 0\<rparr>
      in bindr (iobuf_resize buf1 (sz buf1)) (\<lambda>buf2. Inr (d, buf2)))"

text \<open>
  \<^verbatim>\<open>iobuf_append(buf, data, len)\<close>: the argument \<open>bs\<close> is the \<open>len\<close> bytes at
  \<open>data\<close>.
\<close>

definition iobuf_append :: "iobuf \<Rightarrow> byte list \<Rightarrow> fault + iobuf" where
  "iobuf_append buf bs =
     (if length bs = 0 then Inr buf
      else
      bindr (iobuf_extend buf (length bs)) (\<lambda>buf1.
      bindr (memcpy (data buf1) (len buf1) bs) (\<lambda>d.
      Inr (buf1\<lparr>data := d, len := len buf1 + length bs\<rparr>))))"

definition iobuf_prepend :: "iobuf \<Rightarrow> byte list \<Rightarrow> fault + iobuf" where
  "iobuf_prepend buf bs =
     (if length bs = 0 then Inr buf
      else
      bindr (if len buf + length bs > sz buf
             then iobuf_resize buf (len buf + length bs) else Inr buf) (\<lambda>buf1.
      bindr (if len buf1 > 0
             then memmove (data buf1) (length bs) 0 (len buf1)
             else Inr (data buf1)) (\<lambda>d1.
      bindr (memcpy d1 0 bs) (\<lambda>d2.
      Inr (buf1\<lparr>data := d2, len := len buf1 + length bs\<rparr>)))))"

text \<open>
  \<^verbatim>\<open>iobuf_take_fd\<close>: \<^verbatim>\<open>memmove(fds, fds + 1, 31 * sizeof(int))\<close> copies slots
  1 to 31 onto slots 0 to 30 and leaves slot 31 as it is.
\<close>

definition iobuf_take_fd :: "iobuf \<Rightarrow> int \<times> iobuf" where
  "iobuf_take_fd buf =
     (let fd = fds buf ! 0
      in if fd \<noteq> - 1
         then (fd, buf\<lparr>fds := take (ARRAY_LENGTH_fds - 1) (drop 1 (fds buf))
                               @ drop (ARRAY_LENGTH_fds - 1) (fds buf)\<rparr>)
         else (fd, buf))"

text \<open>
  \<^verbatim>\<open>iobuf_append_fd\<close>: the loop over the slots 0 to 30, started at \<open>idx\<close>.
  The result is the return code, the process state and the buffer.
\<close>

function append_fd_loop :: "os \<Rightarrow> iobuf \<Rightarrow> int \<Rightarrow> nat \<Rightarrow> int \<times> os \<times> iobuf" where
  "append_fd_loop w buf fd idx =
     (if idx < ARRAY_LENGTH_fds - 1 then
        (if fds buf ! idx = - 1 then
           (case dup w fd of (f, w') \<Rightarrow>
              if f = - 1 then (- errno_val (errno w'), w', buf)
              else (0, w', buf\<lparr>fds := (fds buf)[idx := f]\<rparr>))
         else append_fd_loop w buf fd (idx + 1))
      else (- errno_val ENOMEM, w, buf))"
  by pat_completeness auto
termination
  by (relation "measure (\<lambda>(w, buf, fd, idx). ARRAY_LENGTH_fds - idx)") auto

definition iobuf_append_fd :: "os \<Rightarrow> iobuf \<Rightarrow> int \<Rightarrow> int \<times> os \<times> iobuf" where
  "iobuf_append_fd w buf fd = append_fd_loop w buf fd 0"

text \<open>
  What one \<^verbatim>\<open>read(2)\<close> call on a descriptor returns: some bytes (none at the
  end of the stream) or a failure with its error number. A descriptor is
  given by the outcomes of the successive calls on it.
\<close>

datatype rd = RdBytes "byte list" | RdErr errno_code

text \<open>
  \<^verbatim>\<open>SYSCALL(read(...))\<close> repeats the call while it fails with EINTR.
\<close>

fun SYSCALL_read :: "rd list \<Rightarrow> (rd \<times> rd list) option" where
  "SYSCALL_read [] = None"
| "SYSCALL_read (r # rs) = (if r = RdErr EINTR then SYSCALL_read rs else Some (r, rs))"

text \<open>
  \<^verbatim>\<open>xread(fd, buf, count) = xerrno(SYSCALL(read(fd, buf, count)))\<close>: the return
  code, the bytes read (at most \<open>count\<close>) and the outcomes left for later
  calls. \<open>None\<close> when the outcomes given do not say what the call returns.
\<close>

definition xread :: "rd list \<Rightarrow> nat \<Rightarrow> (int \<times> byte list \<times> rd list) option" where
  "xread rs count =
     (case SYSCALL_read rs of
        None \<Rightarrow> None
      | Some (RdBytes bs, rs') \<Rightarrow> Some (int (length (take count bs)), take count bs, rs')
      | Some (RdErr e, rs') \<Rightarrow> Some (- errno_val e, [], rs'))"

text \<open>The cast \<^verbatim>\<open>(int)nread\<close>: the low 32 bits, read as two's complement.\<close>

definition int_of_size_t :: "nat \<Rightarrow> int" where
  "int_of_size_t n = (int n + 2 ^ 31) mod 2 ^ 32 - 2 ^ 31"

text \<open>
  The \<^verbatim>\<open>do ... while (rc == sizeof(data))\<close> loop of \<^verbatim>\<open>iobuf_append_from_fd\<close>
  with its final \<^verbatim>\<open>return nread == 0 ? rc : (int)nread\<close>. A fault of
  \<^verbatim>\<open>iobuf_append\<close> ends the call.
\<close>

function append_from_fd_loop ::
  "iobuf \<Rightarrow> nat \<Rightarrow> rd list \<Rightarrow> (fault + (int \<times> iobuf \<times> rd list)) option" where
  "append_from_fd_loop buf nread rs =
     (case xread rs 1024 of
        None \<Rightarrow> None
      | Some (rc, bytes, rs') \<Rightarrow>
          if rc = 0 \<or> rc = - errno_val EAGAIN
          then Some (Inr (if nread = 0 then rc else int_of_size_t nread, buf, rs'))
          else if rc < 0 then Some (Inr (rc, buf, rs'))
          else case iobuf_append buf bytes of
                 Inl e \<Rightarrow> Some (Inl e)
               | Inr buf' \<Rightarrow>
                   let nread' = nread + nat rc
                   in if rc = 1024 then append_from_fd_loop buf' nread' rs'
                      else Some (Inr (if nread' = 0 then rc else int_of_size_t nread',
                                      buf', rs')))"
  by pat_completeness auto
termination
proof (relation "measure (\<lambda>(buf, nread, rs). length rs)")
  show "wf (measure (\<lambda>(buf, nread, rs). length rs))" by simp
next
  fix buf :: iobuf and nread :: nat and rs :: "rd list" and x2 x1 x2a x1a x2b xa xb
  assume a: "xread rs 1024 = Some x2" "(x1, x2a) = x2" "(x1a, x2b) = x2a"
  have shorter: "SYSCALL_read xs = Some (r, xs') \<Longrightarrow> length xs' < length xs" for xs r xs'
    by (induction xs) (auto split: if_splits)
  from a have "length x2b < length rs"
    by (auto simp: xread_def split: option.splits rd.splits dest: shorter)
  then show "((xa, xb, x2b), buf, nread, rs) \<in> measure (\<lambda>(buf, nread, rs). length rs)"
    by simp
qed

definition iobuf_append_from_fd ::
  "iobuf \<Rightarrow> rd list \<Rightarrow> (fault + (int \<times> iobuf \<times> rd list)) option" where
  "iobuf_append_from_fd buf rs = append_from_fd_loop buf 0 rs"

subsection \<open>Notions used to state the properties of the buffer\<close>

text \<open>The bytes the buffer holds: \<^verbatim>\<open>iobuf_data\<close> up to \<^verbatim>\<open>iobuf_data_end\<close>.\<close>

definition iobuf_contents :: "iobuf \<Rightarrow> byte list" where
  "iobuf_contents buf = (case data buf of None \<Rightarrow> [] | Some d \<Rightarrow> take (len buf) d)"

text \<open>
  The buffer has a block, the block has the recorded size, and the used
  length fits into it.
\<close>

definition iobuf_ok :: "iobuf \<Rightarrow> bool" where
  "iobuf_ok buf =
     (case data buf of None \<Rightarrow> False | Some d \<Rightarrow> length d = sz buf \<and> len buf \<le> sz buf)"

text \<open>A call of \<^verbatim>\<open>iobuf_append\<close> or \<^verbatim>\<open>iobuf_prepend\<close> with its bytes.\<close>

datatype iobuf_op = Append "byte list" | Prepend "byte list"

fun apply_op :: "iobuf \<Rightarrow> iobuf_op \<Rightarrow> fault + iobuf" where
  "apply_op buf (Append bs) = iobuf_append buf bs"
| "apply_op buf (Prepend bs) = iobuf_prepend buf bs"

text \<open>Successive calls, each on the buffer the one before has left.\<close>

fun apply_ops :: "iobuf \<Rightarrow> iobuf_op list \<Rightarrow> fault + iobuf" where
  "apply_ops buf [] = Inr buf"
| "apply_ops buf (x # ops) = bindr (apply_op buf x) (\<lambda>buf'. apply_ops buf' ops)"

fun op_bytes :: "iobuf_op \<Rightarrow> byte list" where
  "op_bytes (Append bs) = bs"
| "op_bytes (Prepend bs) = bs"

fun append_chunks :: "iobuf_op list \<Rightarrow> byte list list" where
  "append_chunks [] = []"
| "append_chunks (Append bs # ops) = bs # append_chunks ops"
| "append_chunks (Prepend bs # ops) = append_chunks ops"

fun prepend_chunks :: "iobuf_op list \<Rightarrow> byte list list" where
  "prepend_chunks [] = []"
| "prepend_chunks (Append bs # ops) = prepend_chunks ops"
| "prepend_chunks (Prepend bs # ops) = bs # prepend_chunks ops"

text \<open>
  The number of descriptors queued in the usable slots 0 to 30, which is also
  the index of the first free slot when there is one.
\<close>

definition iobuf_nfds :: "iobuf \<Rightarrow> nat" where
  "iobuf_nfds buf =
     length (takeWhile (\<lambda>fd. fd \<noteq> - 1) (take (ARRAY_LENGTH_fds - 1) (fds buf)))"

text \<open>The queued descriptors, read up to the first sentinel as \<^verbatim>\<open>xsend_with_fd\<close> does.\<close>

definition fds_queue :: "iobuf \<Rightarrow> int list" where
  "fds_queue buf = takeWhile (\<lambda>fd. fd \<noteq> - 1) (fds buf)"

text \<open>
  The shape of the slot array in every buffer built by \<^verbatim>\<open>iobuf_new\<close>,
  \<^verbatim>\<open>iobuf_append_fd\<close> and \<^verbatim>\<open>iobuf_take_fd\<close>: 32 slots, the queued
  descriptors first, sentinels in all the others, at least one sentinel.
\<close>

definition fds_ok :: "iobuf \<Rightarrow> bool" where
  "fds_ok buf =
     (length (fds_queue buf) < ARRAY_LENGTH_fds
      \<and> fds buf = fds_queue buf
                  @ replicate (ARRAY_LENGTH_fds - length (fds_queue buf)) (- 1))"

text \<open>Successive \<^verbatim>\<open>iobuf_append_fd\<close> calls, with their return codes.\<close>

fun append_fds :: "os \<Rightarrow> iobuf \<Rightarrow> int list \<Rightarrow> int list \<times> os \<times> iobuf" where
  "append_fds w buf [] = ([], w, buf)"
| "append_fds w buf (fd # fdl) =
     (case iobuf_append_fd w buf fd of (rc, w1, buf1) \<Rightarrow>
        case append_fds w1 buf1 fdl of (rcs, w2, buf2) \<Rightarrow> (rc # rcs, w2, buf2))"

text \<open>The descriptors that successive \<^verbatim>\<open>dup\<close> calls return.\<close>

fun dups :: "os \<Rightarrow> int list \<Rightarrow> int list" where
  "dups w [] = []"
| "dups w (fd # fdl) = (case dup w fd of (f, w') \<Rightarrow> f # dups w' fdl)"

text \<open>\<open>n\<close> successive \<^verbatim>\<open>iobuf_take_fd\<close> calls, with what each returns.\<close>

fun take_fds :: "nat \<Rightarrow> iobuf \<Rightarrow> int list \<times> iobuf" where
  "take_fds 0 buf = ([], buf)"
| "take_fds (Suc n) buf =
     (case iobuf_take_fd buf of (fd, buf1) \<Rightarrow>
        case take_fds n buf1 of (fdl, buf2) \<Rightarrow> (fd # fdl, buf2))"

text \<open>
  A read outcome that ends the loop of \<^verbatim>\<open>iobuf_append_from_fd\<close>: fewer bytes
  than the transfer unit, or a failure that \<^verbatim>\<open>SYSCALL\<close> does not retry.
\<close>

definition stops :: "rd \<Rightarrow> bool" where
  "stops r = (case r of RdBytes bs \<Rightarrow> length bs < 1024 | RdErr e \<Rightarrow> e \<noteq> EINTR)"

section \<open>The intrusive list\<close>

text \<open>
  \<^verbatim>\<open>struct list { struct list *prev; struct list *next; }\<close>. Nodes live in a
  store from addresses to nodes; \<open>None\<close> as a pointer is NULL, \<open>None\<close> in the
  store is memory that is not allocated.
\<close>

record 'a list_node =
  prev :: "'a option"
  "next" :: "'a option"

type_synonym 'a node_store = "'a \<Rightarrow> 'a list_node option"

definition get_node :: "'a node_store \<Rightarrow> 'a \<Rightarrow> fault + 'a list_node" where
  "get_node H p = (case H p of None \<Rightarrow> Inl BadAccess | Some n \<Rightarrow> Inr n)"

text \<open>\<^verbatim>\<open>p->prev = v\<close> and \<^verbatim>\<open>p->next = v\<close>\<close>

definition set_prev :: "'a node_store \<Rightarrow> 'a \<Rightarrow> 'a option \<Rightarrow> fault + 'a node_store" where
  "set_prev H p v = bindr (get_node H p) (\<lambda>n. Inr (H(p \<mapsto> n\<lparr>prev := v\<rparr>)))"

definition set_next :: "'a node_store \<Rightarrow> 'a \<Rightarrow> 'a option \<Rightarrow> fault + 'a node_store" where
  "set_next H p v = bindr (get_node H p) (\<lambda>n. Inr (H(p \<mapsto> n\<lparr>next := v\<rparr>)))"

text \<open>A write through a pointer that may be NULL.\<close>

definition deref :: "'a option \<Rightarrow> fault + 'a" where
  "deref p = (case p of None \<Rightarrow> Inl BadAccess | Some a \<Rightarrow> Inr a)"

definition list_init :: "'a node_store \<Rightarrow> 'a \<Rightarrow> fault + 'a node_store" where
  "list_init H l =
     bindr (set_prev H l (Some l)) (\<lambda>H1.
     set_next H1 l (Some l))"

definition list_empty :: "'a node_store \<Rightarrow> 'a \<Rightarrow> fault + bool" where
  "list_empty H l =
     bindr (get_node H l) (\<lambda>n.
     if \<not> (next n \<noteq> None \<and> prev n \<noteq> None) then Inl Assertion
     else Inr (next n = Some l))"

text \<open>
  The second assertion of \<^verbatim>\<open>list_insert\<close> and \<^verbatim>\<open>list_append\<close>:
  \<^verbatim>\<open>(elm->next == NULL && elm->prev == NULL) || list_empty(elm)\<close>, where
  \<^verbatim>\<open>list_empty\<close> is only called when the first disjunct is false.
\<close>

definition elm_unused :: "'a node_store \<Rightarrow> 'a \<Rightarrow> fault + bool" where
  "elm_unused H elm =
     bindr (get_node H elm) (\<lambda>n.
     if next n = None \<and> prev n = None then Inr True else list_empty H elm)"

definition list_insert :: "'a node_store \<Rightarrow> 'a \<Rightarrow> 'a \<Rightarrow> fault + 'a node_store" where
  "list_insert H l elm =
     bindr (get_node H l) (\<lambda>ln.
     if \<not> (next ln \<noteq> None \<and> prev ln \<noteq> None) then Inl Assertion
     else
     bindr (elm_unused H elm) (\<lambda>ok.
     if \<not> ok then Inl Assertion
     else
     bindr (set_prev H elm (Some l)) (\<lambda>H1.
     bindr (get_node H1 l) (\<lambda>ln1.
     bindr (set_next H1 elm (next ln1)) (\<lambda>H2.
     bindr (set_next H2 l (Some elm)) (\<lambda>H3.
     bindr (get_node H3 elm) (\<lambda>en.
     bindr (deref (next en)) (\<lambda>x.
     set_prev H3 x (Some elm)))))))))"

definition list_append :: "'a node_store \<Rightarrow> 'a \<Rightarrow> 'a \<Rightarrow> fault + 'a node_store" where
  "list_append H l elm =
     bindr (get_node H l) (\<lambda>ln.
     if \<not> (next ln \<noteq> None \<and> prev ln \<noteq> None) then Inl Assertion
     else
     bindr (elm_unused H elm) (\<lambda>ok.
     if \<not> ok then Inl Assertion
     else
     bindr (set_next H elm (Some l)) (\<lambda>H1.
     bindr (get_node H1 l) (\<lambda>ln1.
     bindr (set_prev H1 elm (prev ln1)) (\<lambda>H2.
     bindr (set_prev H2 l (Some elm)) (\<lambda>H3.
     bindr (get_node H3 elm) (\<lambda>en.
     bindr (deref (prev en)) (\<lambda>x.
     set_next H3 x (Some elm)))))))))"

definition list_remove :: "'a node_store \<Rightarrow> 'a \<Rightarrow> fault + 'a node_store" where
  "list_remove H elm =
     bindr (get_node H elm) (\<lambda>en.
     if \<not> (next en \<noteq> None \<and> prev en \<noteq> None) then Inl Assertion
     else
     bindr (deref (prev en)) (\<lambda>p.
     bindr (set_next H p (next en)) (\<lambda>H1.
     bindr (get_node H1 elm) (\<lambda>en1.
     bindr (deref (next en1)) (\<lambda>n.
     bindr (set_prev H1 n (prev en1)) (\<lambda>H2.
     bindr (set_next H2 elm None) (\<lambda>H3.
     set_prev H3 elm None)))))))"

text \<open>A node as \<^verbatim>\<open>list_init\<close> leaves it, and a node with both pointers NULL.\<close>

definition self_node :: "'a \<Rightarrow> 'a list_node" where
  "self_node a = \<lparr>prev = Some a, next = Some a\<rparr>"

definition null_node :: "'a list_node" where
  "null_node = \<lparr>prev = None, next = None\<rparr>"

text \<open>
  Two stores used in the examples below: a head 0 with the single element 1,
  and the same after \<^verbatim>\<open>list_remove\<close> of the element.
\<close>

definition two_linked :: "nat node_store" where
  "two_linked =
     (\<lambda>a. Some (self_node a))
       (0 \<mapsto> \<lparr>prev = Some 1, next = Some 1\<rparr>, 1 \<mapsto> \<lparr>prev = Some 0, next = Some 0\<rparr>)"

definition one_removed :: "nat node_store" where
  "one_removed = (\<lambda>a. Some (self_node a))(1 \<mapsto> null_node)"

subsection \<open>The list a head stands for\<close>

text \<open>The \<open>next\<close> and \<open>prev\<close> pointers of the nodes of a store, as functions.\<close>

definition nxt :: "'a node_store \<Rightarrow> 'a \<Rightarrow> 'a option" where
  "nxt H a = (case H a of None \<Rightarrow> None | Some n \<Rightarrow> next n)"

definition prv :: "'a node_store \<Rightarrow> 'a \<Rightarrow> 'a option" where
  "prv H a = (case H a of None \<Rightarrow> None | Some n \<Rightarrow> prev n)"

text \<open>
  \<open>chain N P p xs q\<close>: following \<open>next\<close> from \<open>p\<close> visits the nodes \<open>xs\<close> in
  order and then reaches \<open>q\<close>, and \<open>prev\<close> leads back the same way.
\<close>

fun chain :: "('a \<Rightarrow> 'a option) \<Rightarrow> ('a \<Rightarrow> 'a option) \<Rightarrow> 'a \<Rightarrow> 'a list \<Rightarrow> 'a \<Rightarrow> bool" where
  "chain N P p [] q = (N p = Some q \<and> P q = Some p)"
| "chain N P p (x # xs) q = (N p = Some x \<and> P x = Some p \<and> chain N P x xs q)"

text \<open>
  \<open>dlist H h xs\<close>: the head \<open>h\<close> and the distinct nodes \<open>xs\<close> form a circular
  doubly linked list in the store, the elements in the order \<open>xs\<close>.
\<close>

definition dlist :: "'a node_store \<Rightarrow> 'a \<Rightarrow> 'a list \<Rightarrow> bool" where
  "dlist H h xs = (distinct (h # xs) \<and> chain (nxt H) (prv H) h xs h)"

section \<open>Sources and the sink\<close>

text \<open>
  The addresses of the list nodes of the reactor: \<^verbatim>\<open>&src->link\<close> of the source
  at an address, and the two list heads \<^verbatim>\<open>&sink->sources\<close> and
  \<^verbatim>\<open>&sink->sources_removed\<close> of the sink.
\<close>

datatype lref = SourceLink nat | SinkSources | SinkRemoved

datatype source_close_behavior =
  SOURCE_CLOSE_FD_ON_REMOVE | SOURCE_CLOSE_FD_ON_DESTROY | SOURCE_CLOSE_FD_NEVER

text \<open>
  What a dispatch callback does with the reactor, call by call: it may call
  \<^verbatim>\<open>source_remove\<close>, \<^verbatim>\<open>source_ref\<close> or \<^verbatim>\<open>source_unref\<close> on the source at an
  address.
\<close>

datatype action = CallRemove nat | CallRef nat | CallUnref nat

text \<open>
  \<^verbatim>\<open>struct source\<close>. \<open>refcount\<close> is \<^verbatim>\<open>object.refcount\<close>; \<open>sink\<close> is the pointer
  back to the sink (there is one sink), \<open>None\<close> for \<^verbatim>\<open>nullptr\<close>; \<open>dispatch\<close>
  is the callback. The \<^verbatim>\<open>link\<close> node is in the node store at \<open>SourceLink\<close>.
\<close>

record source =
  refcount :: nat
  sink :: "unit option"
  dispatch :: "action list"
  close_behavior :: source_close_behavior
  fd :: int
  is_active :: bool

text \<open>
  The reactor and its environment: the allocated sources, the list nodes, the
  sink's \<^verbatim>\<open>epollfd\<close>, the process state, the interest list of the epoll
  instance (descriptor and \<^verbatim>\<open>data.ptr\<close>), the descriptors the kernel cannot
  watch with the error it gives, the registered descriptors that are ready in
  the order the kernel reports them, and the log of the callbacks invoked.
\<close>

record state =
  srcs :: "nat \<Rightarrow> source option"
  nodes :: "lref node_store"
  epollfd :: int
  world :: os
  interest :: "(int \<times> nat) list"
  unwatchable :: "int \<Rightarrow> errno_code option"
  ready :: "int list"
  calls :: "nat list"

text \<open>\<^verbatim>\<open>xerrno(value)\<close>\<close>

definition xerrno :: "os \<Rightarrow> int \<Rightarrow> int" where
  "xerrno w v = (if v < 0 then - errno_val (errno w) else v)"

text \<open>
  \<^verbatim>\<open>close(fd)\<close> and \<^verbatim>\<open>xclose(fd)\<close>, which closes unless the descriptor is -1
  and always returns -1.
\<close>

definition close :: "os \<Rightarrow> int \<Rightarrow> os" where
  "close w d =
     (if d \<in> set (open_fds w) then w\<lparr>open_fds := removeAll d (open_fds w)\<rparr>
      else w\<lparr>errno := EBADF\<rparr>)"

definition xclose :: "os \<Rightarrow> int \<Rightarrow> int \<times> os" where
  "xclose w d = (if d \<noteq> - 1 then (- 1, close w d) else (- 1, w))"

text \<open>
  \<^verbatim>\<open>epoll_ctl(epfd, EPOLL_CTL_ADD, fd, &e)\<close> with \<^verbatim>\<open>e.data.ptr = ptr\<close>: fails with
  EBADF when \<open>fd\<close> or \<open>epfd\<close> is not open, with EEXIST when \<open>fd\<close> is registered
  already, and with the kernel's error when it cannot watch \<open>fd\<close>.
\<close>

definition epoll_ctl_add :: "state \<Rightarrow> int \<Rightarrow> int \<Rightarrow> nat \<Rightarrow> int \<times> state" where
  "epoll_ctl_add st epfd d ptr =
     (if d \<notin> set (open_fds (world st)) \<or> epfd \<notin> set (open_fds (world st))
      then (- 1, st\<lparr>world := (world st)\<lparr>errno := EBADF\<rparr>\<rparr>)
      else if d \<in> fst ` set (interest st)
      then (- 1, st\<lparr>world := (world st)\<lparr>errno := EEXIST\<rparr>\<rparr>)
      else case unwatchable st d of
             Some e \<Rightarrow> (- 1, st\<lparr>world := (world st)\<lparr>errno := e\<rparr>\<rparr>)
           | None \<Rightarrow> (0, st\<lparr>interest := interest st @ [(d, ptr)]\<rparr>))"

text \<open>\<^verbatim>\<open>epoll_ctl(epfd, EPOLL_CTL_DEL, fd, nullptr)\<close>\<close>

definition epoll_ctl_del :: "state \<Rightarrow> int \<Rightarrow> int \<Rightarrow> int \<times> state" where
  "epoll_ctl_del st epfd d =
     (if d \<notin> set (open_fds (world st)) \<or> epfd \<notin> set (open_fds (world st))
      then (- 1, st\<lparr>world := (world st)\<lparr>errno := EBADF\<rparr>\<rparr>)
      else if d \<notin> fst ` set (interest st)
      then (- 1, st\<lparr>world := (world st)\<lparr>errno := ENOENT\<rparr>\<rparr>)
      else (0, st\<lparr>interest := filter (\<lambda>(d', p). d' \<noteq> d) (interest st)\<rparr>))"

text \<open>
  \<^verbatim>\<open>epoll_wait(epfd, ep, maxevents, 0)\<close>: the count returned, and the
  \<^verbatim>\<open>data.ptr\<close> of the events written to \<open>ep\<close>: those of the registered
  descriptors that are ready, at most \<open>maxevents\<close> of them.
\<close>

definition epoll_wait :: "state \<Rightarrow> int \<Rightarrow> nat \<Rightarrow> int \<times> nat list \<times> state" where
  "epoll_wait st epfd maxevents =
     (if epfd \<notin> set (open_fds (world st))
      then (- 1, [], st\<lparr>world := (world st)\<lparr>errno := EBADF\<rparr>\<rparr>)
      else let ep = take maxevents (List.map_filter (map_of (interest st)) (ready st))
           in (int (length ep), ep, st))"

text \<open>
  \<^verbatim>\<open>object_ref\<close> on a source: \<^verbatim>\<open>assert(refcount >= 1); ++refcount\<close>, the
  counter being a \<^verbatim>\<open>uint32_t\<close>.
\<close>

definition source_ref :: "state \<Rightarrow> nat \<Rightarrow> fault + state" where
  "source_ref st a =
     (case srcs st a of
        None \<Rightarrow> Inl BadAccess
      | Some s \<Rightarrow>
          if \<not> refcount s \<ge> 1 then Inl Assertion
          else Inr (st\<lparr>srcs := (srcs st)(a \<mapsto> s\<lparr>refcount := (refcount s + 1) mod 2 ^ 32\<rparr>)\<rparr>))"

text \<open>
  \<^verbatim>\<open>source_destroy\<close>, the destroy callback of a source, followed by the
  \<^verbatim>\<open>free\<close> of \<^verbatim>\<open>object_destroy\<close>: the source and its link node are no longer
  allocated.
\<close>

definition source_destroy :: "state \<Rightarrow> nat \<Rightarrow> fault + state" where
  "source_destroy st a =
     (case srcs st a of
        None \<Rightarrow> Inl BadAccess
      | Some s \<Rightarrow>
          if \<not> \<not> is_active s then Inl Assertion
          else let st1 = (if close_behavior s = SOURCE_CLOSE_FD_ON_DESTROY
                          then (case xclose (world st) (fd s) of (r, w) \<Rightarrow>
                                  st\<lparr>world := w, srcs := (srcs st)(a \<mapsto> s\<lparr>fd := r\<rparr>)\<rparr>)
                          else st)
               in Inr (st1\<lparr>srcs := (srcs st1)(a := None),
                          nodes := (nodes st1)(SourceLink a := None)\<rparr>))"

text \<open>
  \<^verbatim>\<open>source_unref\<close>: \<^verbatim>\<open>assert(refcount >= 1)\<close>, decrement, and destroy and
  free at zero.
\<close>

definition source_unref :: "state \<Rightarrow> nat \<Rightarrow> fault + state" where
  "source_unref st a =
     (case srcs st a of
        None \<Rightarrow> Inl BadAccess
      | Some s \<Rightarrow>
          if \<not> refcount s \<ge> 1 then Inl Assertion
          else let st1 = st\<lparr>srcs := (srcs st)(a \<mapsto> s\<lparr>refcount := refcount s - 1\<rparr>)\<rparr>
               in if refcount s - 1 = 0 then source_destroy st1 a else Inr st1)"

text \<open>Writes to the fields of the source at an address.\<close>

definition update_source :: "state \<Rightarrow> nat \<Rightarrow> (source \<Rightarrow> source) \<Rightarrow> fault + state" where
  "update_source st a f =
     (case srcs st a of
        None \<Rightarrow> Inl BadAccess
      | Some s \<Rightarrow> Inr (st\<lparr>srcs := (srcs st)(a \<mapsto> f s)\<rparr>))"

definition get_source :: "state \<Rightarrow> nat \<Rightarrow> fault + source" where
  "get_source st a = (case srcs st a of None \<Rightarrow> Inl BadAccess | Some s \<Rightarrow> Inr s)"

text \<open>
  \<^verbatim>\<open>source_remove(src)\<close>; the argument is \<open>None\<close> for a null pointer.
\<close>

definition source_remove :: "state \<Rightarrow> nat option \<Rightarrow> fault + state" where
  "source_remove st src =
     (case src of
        None \<Rightarrow> Inr st
      | Some a \<Rightarrow>
          bindr (get_source st a) (\<lambda>s.
          if \<not> is_active s then Inr st
          else
          bindr (deref (sink s)) (\<lambda>_.
          case epoll_ctl_del st (epollfd st) (fd s) of (_, st1) \<Rightarrow>
          bindr (if close_behavior s = SOURCE_CLOSE_FD_ON_REMOVE
                 then (case xclose (world st1) (fd s) of (r, w) \<Rightarrow>
                         update_source (st1\<lparr>world := w\<rparr>) a (\<lambda>s. s\<lparr>fd := r\<rparr>))
                 else Inr st1) (\<lambda>st2.
          bindr (update_source st2 a (\<lambda>s. s\<lparr>is_active := False\<rparr>)) (\<lambda>st3.
          bindr (source_unref st3 a) (\<lambda>st4.
          bindr (list_remove (nodes st4) (SourceLink a)) (\<lambda>H5.
          bindr (get_source st4 a) (\<lambda>s5.
          bindr (deref (sink s5)) (\<lambda>_.
          bindr (list_append H5 SinkRemoved (SourceLink a)) (\<lambda>H6.
          update_source (st4\<lparr>nodes := H6\<rparr>) a (\<lambda>s. s\<lparr>sink := None\<rparr>)))))))))))"

text \<open>
  \<^verbatim>\<open>source_new(fd, dispatch, user_data)\<close>, the new object placed at the
  address \<open>a\<close> that the allocator returns, which is not in use.
\<close>

definition source_new :: "state \<Rightarrow> nat \<Rightarrow> int \<Rightarrow> action list \<Rightarrow> fault + state" where
  "source_new st a sourcefd cb =
     (if srcs st a \<noteq> None \<or> nodes st (SourceLink a) \<noteq> None then Inl BadAccess
      else
      bindr (list_init ((nodes st)(SourceLink a \<mapsto> null_node)) (SourceLink a)) (\<lambda>H.
      Inr (st\<lparr>srcs := (srcs st)(a \<mapsto>
                 \<lparr>refcount = 1, sink = None, dispatch = cb,
                  close_behavior = SOURCE_CLOSE_FD_ON_REMOVE, fd = sourcefd,
                  is_active = False\<rparr>),
              nodes := H\<rparr>)))"

definition source_never_close_fd :: "state \<Rightarrow> nat \<Rightarrow> fault + state" where
  "source_never_close_fd st a =
     update_source st a (\<lambda>s. s\<lparr>close_behavior := SOURCE_CLOSE_FD_NEVER\<rparr>)"

text \<open>
  \<^verbatim>\<open>sink_new\<close> in a process state where \<^verbatim>\<open>epoll_create1\<close> returns the descriptor
  \<open>efd\<close>: the two list heads are initialised and nothing is registered.
\<close>

definition sink_new :: "os \<Rightarrow> int \<Rightarrow> state" where
  "sink_new w efd =
     \<lparr>srcs = (\<lambda>a. None),
      nodes = (\<lambda>p. None)(SinkSources \<mapsto> self_node SinkSources,
                          SinkRemoved \<mapsto> self_node SinkRemoved),
      epollfd = efd,
      world = w\<lparr>open_fds := efd # open_fds w\<rparr>,
      interest = [],
      unwatchable = (\<lambda>d. None),
      ready = [],
      calls = []\<rparr>"

text \<open>\<^verbatim>\<open>sink_add_source(s, src)\<close>: the return code and the state.\<close>

definition sink_add_source :: "state \<Rightarrow> nat \<Rightarrow> fault + (int \<times> state)" where
  "sink_add_source st a =
     bindr (source_ref st a) (\<lambda>st1.
     bindr (get_source st1 a) (\<lambda>s.
     case epoll_ctl_add st1 (epollfd st1) (fd s) a of (r, st2) \<Rightarrow>
     let rc = xerrno (world st2) r
     in if rc < 0
        then bindr (source_unref st2 a) (\<lambda>st3. Inr (rc, st3))
        else
        bindr (update_source st2 a (\<lambda>s. s\<lparr>is_active := True\<rparr>)) (\<lambda>st3.
        bindr (update_source st3 a (\<lambda>s. s\<lparr>sink := Some ()\<rparr>)) (\<lambda>st4.
        bindr (source_ref st4 a) (\<lambda>st5.
        bindr (list_append (nodes st5) SinkSources (SourceLink a)) (\<lambda>H6.
        Inr (0, st5\<lparr>nodes := H6\<rparr>)))))))"

text \<open>The calls a dispatch callback makes, in order.\<close>

fun do_action :: "state \<Rightarrow> action \<Rightarrow> fault + state" where
  "do_action st (CallRemove a) = source_remove st (Some a)"
| "do_action st (CallRef a) = source_ref st a"
| "do_action st (CallUnref a) = source_unref st a"

fun run_callback :: "state \<Rightarrow> action list \<Rightarrow> fault + state" where
  "run_callback st [] = Inr st"
| "run_callback st (x # xs) = bindr (do_action st x) (\<lambda>st'. run_callback st' xs)"

text \<open>
  The first loop of \<^verbatim>\<open>sink_dispatch\<close>, over the events \<open>ep[0..count)\<close>: a source
  whose \<open>fd\<close> is -1 is skipped, any other has its callback invoked.
\<close>

fun dispatch_events :: "state \<Rightarrow> nat list \<Rightarrow> fault + state" where
  "dispatch_events st [] = Inr st"
| "dispatch_events st (p # ps) =
     bindr (get_source st p) (\<lambda>s.
     if fd s = - 1 then dispatch_events st ps
     else bindr (run_callback (st\<lparr>calls := calls st @ [p]\<rparr>) (dispatch s)) (\<lambda>st'.
          dispatch_events st' ps))"

text \<open>
  Modelled from the spec: the macro \<^verbatim>\<open>list_for_each_safe\<close> of util-list.h,
  which is not among the sources. The spec asks for iteration that takes the
  next pointer before the body runs, so that the body may unlink the current
  element. \<open>container_of\<close> takes the address of a link node back to its
  source; \<open>pos\<close> and \<open>tmp\<close> are the link nodes of the current and the next
  element, and the loop ends when \<open>pos\<close> is the list head.
\<close>

fun container_of :: "lref \<Rightarrow> fault + nat" where
  "container_of (SourceLink a) = Inr a"
| "container_of SinkSources = Inl BadAccess"
| "container_of SinkRemoved = Inl BadAccess"

fun list_for_each_safe ::
  "nat \<Rightarrow> (state \<Rightarrow> nat \<Rightarrow> fault + state) \<Rightarrow> lref \<Rightarrow> lref \<Rightarrow> lref \<Rightarrow> state \<Rightarrow> fault + state"
  where
  "list_for_each_safe 0 body head pos tmp st = Inl Timeout"
| "list_for_each_safe (Suc n) body head pos tmp st =
     (if pos = head then Inr st
      else
      bindr (container_of pos) (\<lambda>src.
      bindr (body st src) (\<lambda>st1.
      bindr (get_node (nodes st1) tmp) (\<lambda>tn.
      bindr (deref (next tn)) (\<lambda>tmp'.
      list_for_each_safe n body head tmp tmp' st1)))))"

definition list_for_each_safe_start ::
  "nat \<Rightarrow> (state \<Rightarrow> nat \<Rightarrow> fault + state) \<Rightarrow> lref \<Rightarrow> state \<Rightarrow> fault + state" where
  "list_for_each_safe_start n body head st =
     bindr (get_node (nodes st) head) (\<lambda>hn.
     bindr (deref (next hn)) (\<lambda>pos.
     bindr (get_node (nodes st) pos) (\<lambda>pn.
     bindr (deref (next pn)) (\<lambda>tmp.
     list_for_each_safe n body head pos tmp st))))"

text \<open>
  The body of the second loop of \<^verbatim>\<open>sink_dispatch\<close>:
  \<^verbatim>\<open>list_remove(&src->link); list_init(&src->link); source_unref(src)\<close>.
\<close>

definition reap_source :: "state \<Rightarrow> nat \<Rightarrow> fault + state" where
  "reap_source st a =
     bindr (list_remove (nodes st) (SourceLink a)) (\<lambda>H1.
     bindr (list_init H1 (SourceLink a)) (\<lambda>H2.
     source_unref (st\<lparr>nodes := H2\<rparr>) a))"

text \<open>
  \<^verbatim>\<open>sink_dispatch(s)\<close>: the return code and the state. The first argument
  bounds the steps of the loop over the removed sources.
\<close>

definition sink_dispatch :: "nat \<Rightarrow> state \<Rightarrow> fault + (int \<times> state)" where
  "sink_dispatch n st =
     (case epoll_wait st (epollfd st) 32 of (count, ep, st1) \<Rightarrow>
        if count < 0 then Inr (- errno_val (errno (world st1)), st1)
        else
        bindr (dispatch_events st1 (take (nat count) ep)) (\<lambda>st2.
        bindr (list_for_each_safe_start n reap_source SinkRemoved st2) (\<lambda>st3.
        Inr (0, st3))))"

subsection \<open>Notions used to state the properties of the reactor\<close>

text \<open>A node that is in no list: both pointers NULL, or self-looped.\<close>

definition unlinked :: "'a node_store \<Rightarrow> 'a \<Rightarrow> bool" where
  "unlinked H e =
     ((nxt H e = None \<and> prv H e = None) \<or> (nxt H e = Some e \<and> prv H e = Some e))"

text \<open>
  \<open>listed_ok S xs ys\<close>: the sources \<open>xs\<close> are active, point back to the sink
  and carry at least the two references taken by \<^verbatim>\<open>sink_add_source\<close>; the
  sources \<open>ys\<close> are inactive and carry at least one reference, that of the
  removed list; every active source is in \<open>xs\<close>.
\<close>

definition listed_ok :: "(nat \<Rightarrow> source option) \<Rightarrow> nat list \<Rightarrow> nat list \<Rightarrow> bool" where
  "listed_ok S xs ys =
     ((\<forall>a \<in> set xs. \<exists>s. S a = Some s \<and> is_active s \<and> sink s = Some () \<and> 2 \<le> refcount s)
      \<and> (\<forall>a \<in> set ys. \<exists>s. S a = Some s \<and> \<not> is_active s \<and> 1 \<le> refcount s)
      \<and> (\<forall>a s. S a = Some s \<and> is_active s \<longrightarrow> a \<in> set xs))"

text \<open>
  \<open>links_ok S H xs ys\<close>: a link node is allocated exactly with its source,
  and the link of a source in neither list is unlinked.
\<close>

definition links_ok ::
  "(nat \<Rightarrow> source option) \<Rightarrow> lref node_store \<Rightarrow> nat list \<Rightarrow> nat list \<Rightarrow> bool" where
  "links_ok S H xs ys =
     (\<forall>a. (S a = None \<longleftrightarrow> H (SourceLink a) = None)
          \<and> (S a \<noteq> None \<and> a \<notin> set xs \<union> set ys \<longrightarrow> unlinked H (SourceLink a)))"

text \<open>
  \<open>sink_inv st xs ys\<close>: the shape the reactor operations keep. The sink's
  \<open>sources\<close> list holds the link nodes of the sources \<open>xs\<close> and its
  \<open>sources_removed\<close> list those of \<open>ys\<close>, in this order, and no source is in
  both.
\<close>

definition sink_inv :: "state \<Rightarrow> nat list \<Rightarrow> nat list \<Rightarrow> bool" where
  "sink_inv st xs ys =
     (distinct (xs @ ys)
      \<and> dlist (nodes st) SinkSources (map SourceLink xs)
      \<and> dlist (nodes st) SinkRemoved (map SourceLink ys)
      \<and> listed_ok (srcs st) xs ys
      \<and> links_ok (srcs st) (nodes st) xs ys)"

text \<open>The source an action is a call on.\<close>

fun target :: "action \<Rightarrow> nat" where
  "target (CallRemove a) = a"
| "target (CallRef a) = a"
| "target (CallUnref a) = a"

text \<open>
  The calls the callbacks of the events \<open>ep\<close> make when all of them run, one
  callback after the other.
\<close>

definition pass_script :: "state \<Rightarrow> nat list \<Rightarrow> action list" where
  "pass_script st ep =
     concat (map (\<lambda>p. case srcs st p of None \<Rightarrow> [] | Some s \<Rightarrow> dispatch s) ep)"

text \<open>
  The references the reactor itself holds on a source: two while it is
  active, and one otherwise, which stands for the removed list's reference
  or, for a source in no list, for one reference that its owner keeps over
  the pass.
\<close>

definition held :: "source \<Rightarrow> nat" where
  "held s = (if is_active s then 2 else 1)"

text \<open>
  \<open>callbacks_ok st script\<close>: the calls of \<open>script\<close> are on allocated sources,
  the \<^verbatim>\<open>source_unref\<close> calls on a source drop no more than its external
  references, those beyond \<open>held\<close>, and the \<^verbatim>\<open>source_ref\<close> calls do not
  overflow its counter.
\<close>

definition callbacks_ok :: "state \<Rightarrow> action list \<Rightarrow> bool" where
  "callbacks_ok st script =
     ((\<forall>x \<in> set script. srcs st (target x) \<noteq> None)
      \<and> (\<forall>a. case srcs st a of
                 None \<Rightarrow> True
               | Some s \<Rightarrow>
                   held s + count_list script (CallUnref a) \<le> refcount s
                   \<and> refcount s + count_list script (CallRef a) < 2 ^ 32))"

text \<open>
  A source after \<^verbatim>\<open>sink_add_source\<close> and after \<^verbatim>\<open>source_remove\<close>, and what the second loop of
  \<^verbatim>\<open>sink_dispatch\<close> does to a source of the removed list: the last reference
  frees it, any other is dropped.
\<close>

definition added_source :: "source \<Rightarrow> source" where
  "added_source s = s\<lparr>is_active := True, sink := Some (), refcount := refcount s + 2\<rparr>"

definition removed_source :: "source \<Rightarrow> source" where
  "removed_source s =
     s\<lparr>fd := (if close_behavior s = SOURCE_CLOSE_FD_ON_REMOVE then - 1 else fd s),
       is_active := False, refcount := refcount s - 1, sink := None\<rparr>"

definition released :: "source option \<Rightarrow> source option" where
  "released so =
     (case so of
        None \<Rightarrow> None
      | Some s \<Rightarrow> if refcount s = 1 then None else Some (s\<lparr>refcount := refcount s - 1\<rparr>))"

text \<open>
  The state used in the examples below: a sink with \<^verbatim>\<open>epollfd\<close> 3 and one
  source at address 0, created by \<^verbatim>\<open>source_new\<close> for descriptor 5 with the
  callback \<open>cb\<close>, added by \<^verbatim>\<open>sink_add_source\<close> and still referenced by its
  creator, when descriptor 5 is ready.
\<close>

definition example_state :: "action list \<Rightarrow> state" where
  "example_state cb =
     \<lparr>srcs = (\<lambda>a. None)(0 \<mapsto>
               \<lparr>refcount = 3, sink = Some (), dispatch = cb,
                close_behavior = SOURCE_CLOSE_FD_ON_REMOVE, fd = 5, is_active = True\<rparr>),
      nodes = (\<lambda>p. None)(SinkSources \<mapsto> \<lparr>prev = Some (SourceLink 0), next = Some (SourceLink 0)\<rparr>,
                          SinkRemoved \<mapsto> self_node SinkRemoved,
                          SourceLink 0 \<mapsto> \<lparr>prev = Some SinkSources, next = Some SinkSources\<rparr>),
      epollfd = 3,
      world = \<lparr>open_fds = [3, 0, 1, 2, 5], max_fds = 16, errno = EPERM\<rparr>,
      interest = [(5, 0)],
      unwatchable = (\<lambda>d. None),
      ready = [5],
      calls = []\<rparr>"

text \<open>
  The same state with a second source at address 1, fresh from
  \<^verbatim>\<open>source_new\<close> for the descriptor \<open>d\<close> and not yet added to the sink.
\<close>

definition example_state2 :: "int \<Rightarrow> state" where
  "example_state2 d =
     (example_state [])
       \<lparr>srcs := (srcs (example_state []))(1 \<mapsto>
                  \<lparr>refcount = 1, sink = None, dispatch = [],
                   close_behavior = SOURCE_CLOSE_FD_ON_REMOVE, fd = d, is_active = False\<rparr>),
        nodes := (nodes (example_state []))(SourceLink 1 \<mapsto> self_node (SourceLink 1))\<rparr>"

text \<open>
  The state that \<^verbatim>\<open>source_never_close_fd\<close> and then \<^verbatim>\<open>source_remove\<close> on the
  source make of \<open>example_state []\<close>: the source keeps descriptor 5 open, is
  no longer registered, and waits in the \<open>sources_removed\<close> list for the next
  \<^verbatim>\<open>sink_dispatch\<close>.
\<close>

definition pending_state :: state where
  "pending_state =
     \<lparr>srcs = (\<lambda>a. None)(0 \<mapsto>
               \<lparr>refcount = 2, sink = None, dispatch = [],
                close_behavior = SOURCE_CLOSE_FD_NEVER, fd = 5, is_active = False\<rparr>),
      nodes = (\<lambda>p. None)(SinkSources \<mapsto> self_node SinkSources,
                          SinkRemoved \<mapsto> \<lparr>prev = Some (SourceLink 0), next = Some (SourceLink 0)\<rparr>,
                          SourceLink 0 \<mapsto> \<lparr>prev = Some SinkRemoved, next = Some SinkRemoved\<rparr>),
      epollfd = 3,
      world = \<lparr>open_fds = [3, 0, 1, 2, 5], max_fds = 16, errno = EPERM\<rparr>,
      interest = [],
      unwatchable = (\<lambda>d. None),
      ready = [5],
      calls = []\<rparr>"

text \<open>
  The sources with a ready descriptor, in the order in which the multiplexer
  reports them.
\<close>

definition ready_sources :: "state \<Rightarrow> nat list" where
  "ready_sources st = List.map_filter (map_of (interest st)) (ready st)"

text \<open>
  A sink with \<^verbatim>\<open>epollfd\<close> 3 and \<open>k\<close> sources at the addresses 0 to \<open>k - 1\<close>, the
  source at \<open>a\<close> for descriptor \<open>10 + a\<close>, all added by \<^verbatim>\<open>sink_add_source\<close>,
  with callbacks that call nothing, when all the descriptors are ready.
\<close>

definition crowded_state :: "nat \<Rightarrow> state" where
  "crowded_state k =
     \<lparr>srcs = (\<lambda>a. if a < k
                  then Some \<lparr>refcount = 2, sink = Some (), dispatch = [],
                             close_behavior = SOURCE_CLOSE_FD_ON_REMOVE, fd = 10 + int a,
                             is_active = True\<rparr>
                  else None),
      nodes = (\<lambda>p. case p of
                 SinkSources \<Rightarrow>
                   Some (if k = 0 then self_node SinkSources
                         else \<lparr>prev = Some (SourceLink (k - 1)), next = Some (SourceLink 0)\<rparr>)
               | SinkRemoved \<Rightarrow> Some (self_node SinkRemoved)
               | SourceLink a \<Rightarrow>
                   if a < k
                   then Some \<lparr>prev = Some (if a = 0 then SinkSources else SourceLink (a - 1)),
                              next = Some (if a + 1 = k then SinkSources else SourceLink (a + 1))\<rparr>
                   else None),
      epollfd = 3,
      world = \<lparr>open_fds = [3, 0, 1, 2] @ map (\<lambda>a. 10 + int a) [0..<k], max_fds = 1024,
               errno = EPERM\<rparr>,
      interest = map (\<lambda>a. (10 + int a, a)) [0..<k],
      unwatchable = (\<lambda>d. None),
      ready = map (\<lambda>a. 10 + int a) [0..<k],
      calls = []\<rparr>"

text \<open>
  \<open>same_sources st st'\<close>: the same sources are allocated in both states, with
  the same callbacks.
\<close>

definition same_sources :: "state \<Rightarrow> state \<Rightarrow> bool" where
  "same_sources st st' =
     (\<forall>b. map_option dispatch (srcs st' b) = map_option dispatch (srcs st b))"

text \<open>
  \<open>moved xs ys xs' ys'\<close>: sources have gone from the \<open>sources\<close> list to the
  end of the \<open>sources_removed\<close> list, and no source has left both.
\<close>

definition moved :: "nat list \<Rightarrow> nat list \<Rightarrow> nat list \<Rightarrow> nat list \<Rightarrow> bool" where
  "moved xs ys xs' ys' =
     (set xs' \<union> set ys' = set xs \<union> set ys \<and> set xs' \<subseteq> set xs \<and> prefix ys ys')"

section \<open>Properties of the I/O buffer\<close>

lemmas [simp del] = append_fd_loop.simps append_from_fd_loop.simps

lemma errno_val_pos: "0 < errno_val e"
  by (cases e) simp_all

lemma errno_val_inj: "errno_val a = errno_val b \<longleftrightarrow> a = b"
  by (cases a; cases b) simp_all

subsection \<open>Faults\<close>

lemma bindr_simps [simp]:
  "bindr (Inl e) f = Inl e" "bindr (Inr x) f = f x"
  by (simp_all add: bindr_def)

lemma bindr_Inr_iff: "bindr m f = Inr y \<longleftrightarrow> (\<exists>x. m = Inr x \<and> f x = Inr y)"
  by (cases m) simp_all

subsection \<open>Bytes: append, prepend, take\<close>

lemma iobuf_new_ok: "iobuf_ok (iobuf_new n)"
  by (simp add: iobuf_ok_def iobuf_new_def malloc_def)

lemma iobuf_okD:
  assumes "iobuf_ok buf"
  obtains d where "data buf = Some d" "length d = sz buf" "len buf \<le> sz buf"
  using assms by (auto simp: iobuf_ok_def split: option.splits)

lemma iobuf_resize_spec:
  assumes "iobuf_ok buf" "len buf \<le> n" "0 < n"
  shows "\<exists>buf'. iobuf_resize buf n = Inr buf' \<and> iobuf_ok buf' \<and> sz buf' = n
     \<and> len buf' = len buf \<and> fds buf' = fds buf
     \<and> iobuf_contents buf' = iobuf_contents buf"
proof -
  from assms(1) obtain d where d: "data buf = Some d" "length d = sz buf" "len buf \<le> sz buf"
    by (rule iobuf_okD)
  let ?b = "buf\<lparr>data := Some (take n d @ malloc (n - length d)), sz := n\<rparr>"
  have "iobuf_resize buf n = Inr ?b" using d assms(3) by (simp add: iobuf_resize_def)
  moreover have "iobuf_ok ?b" using assms(2) by (simp add: iobuf_ok_def malloc_def)
  moreover have "iobuf_contents ?b = iobuf_contents buf"
    using d assms(2) by (simp add: iobuf_contents_def min_def)
  ultimately show ?thesis by simp
qed

lemma iobuf_append_spec:
  assumes "iobuf_ok buf"
  shows "\<exists>buf'. iobuf_append buf bs = Inr buf' \<and> iobuf_ok buf'
     \<and> len buf' = len buf + length bs
     \<and> iobuf_contents buf' = iobuf_contents buf @ bs
     \<and> sz buf' = max (sz buf) (len buf + length bs) \<and> fds buf' = fds buf"
proof (cases "bs = []")
  case True
  with assms show ?thesis
    by (auto simp: iobuf_append_def elim!: iobuf_okD)
next
  case False
  have "\<exists>buf1. iobuf_extend buf (length bs) = Inr buf1 \<and> iobuf_ok buf1
      \<and> sz buf1 = max (sz buf) (len buf + length bs) \<and> len buf1 = len buf
      \<and> fds buf1 = fds buf \<and> iobuf_contents buf1 = iobuf_contents buf"
  proof (cases "len buf + length bs > sz buf")
    case True
    with iobuf_resize_spec[OF assms, of "len buf + length bs"] False show ?thesis
      by (auto simp: iobuf_extend_def Let_def)
  next
    case False
    with assms show ?thesis by (simp add: iobuf_extend_def Let_def max_def)
  qed
  then obtain buf1 where 1: "iobuf_extend buf (length bs) = Inr buf1" "iobuf_ok buf1"
    "sz buf1 = max (sz buf) (len buf + length bs)" "len buf1 = len buf"
    "fds buf1 = fds buf" "iobuf_contents buf1 = iobuf_contents buf"
    by blast
  from 1(2) obtain d where d: "data buf1 = Some d" "length d = sz buf1" by (rule iobuf_okD)
  have fit: "len buf1 + length bs \<le> length d" using d(2) 1(3,4) by simp
  let ?d' = "take (len buf1) d @ bs @ drop (len buf1 + length bs) d"
  let ?b = "buf1\<lparr>data := Some ?d', len := len buf1 + length bs\<rparr>"
  have "iobuf_append buf bs = Inr ?b"
    using False 1(1) d(1) fit by (simp add: iobuf_append_def memcpy_def)
  moreover have "iobuf_ok ?b" using fit d(2) by (simp add: iobuf_ok_def)
  moreover have "iobuf_contents ?b = iobuf_contents buf @ bs"
    using fit d(1) 1(6)[symmetric] by (simp add: iobuf_contents_def)
  ultimately show ?thesis using 1(3,4,5) by simp
qed

lemma iobuf_prepend_spec:
  assumes "iobuf_ok buf"
  shows "\<exists>buf'. iobuf_prepend buf bs = Inr buf' \<and> iobuf_ok buf'
     \<and> len buf' = len buf + length bs
     \<and> iobuf_contents buf' = bs @ iobuf_contents buf
     \<and> sz buf' = max (sz buf) (len buf + length bs) \<and> fds buf' = fds buf"
proof (cases "bs = []")
  case True
  with assms show ?thesis
    by (auto simp: iobuf_prepend_def elim!: iobuf_okD)
next
  case False
  let ?r = "if len buf + length bs > sz buf
            then iobuf_resize buf (len buf + length bs) else Inr buf"
  have "\<exists>buf1. ?r = Inr buf1 \<and> iobuf_ok buf1
      \<and> sz buf1 = max (sz buf) (len buf + length bs) \<and> len buf1 = len buf
      \<and> fds buf1 = fds buf \<and> iobuf_contents buf1 = iobuf_contents buf"
  proof (cases "len buf + length bs > sz buf")
    case True
    with iobuf_resize_spec[OF assms, of "len buf + length bs"] False show ?thesis
      by auto
  next
    case False
    with assms show ?thesis by (simp add: max_def)
  qed
  then obtain buf1 where 1: "?r = Inr buf1" "iobuf_ok buf1"
    "sz buf1 = max (sz buf) (len buf + length bs)" "len buf1 = len buf"
    "fds buf1 = fds buf" "iobuf_contents buf1 = iobuf_contents buf"
    by blast
  from 1(2) obtain d where d: "data buf1 = Some d" "length d = sz buf1" by (rule iobuf_okD)
  have fit: "len buf1 + length bs \<le> length d" using d(2) 1(3,4) by simp
  let ?d1 = "if len buf1 > 0
             then take (length bs) d @ take (len buf1) d @ drop (length bs + len buf1) d
             else d"
  let ?d2 = "bs @ drop (length bs) ?d1"
  let ?b = "buf1\<lparr>data := Some ?d2, len := len buf1 + length bs\<rparr>"
  have m: "(if len buf1 > 0 then memmove (data buf1) (length bs) 0 (len buf1)
            else Inr (data buf1)) = Inr (Some ?d1)"
    using d(1) fit by (simp add: memmove_def)
  have l1: "length ?d1 = length d" using fit by simp
  have c: "memcpy (Some ?d1) 0 bs = Inr (Some ?d2)"
    using fit l1 unfolding memcpy_def by simp
  have "iobuf_prepend buf bs = Inr ?b"
    unfolding iobuf_prepend_def using False 1(1) m c by simp
  moreover have "iobuf_ok ?b" using fit d(2) l1 by (simp add: iobuf_ok_def)
  moreover have "iobuf_contents ?b = bs @ iobuf_contents buf"
    using fit d(1) 1(6)[symmetric] by (simp add: iobuf_contents_def)
  ultimately show ?thesis using 1(3,4,5) by simp
qed

lemma apply_op_spec:
  assumes "iobuf_ok buf"
  shows "\<exists>buf'. apply_op buf x = Inr buf' \<and> iobuf_ok buf'
     \<and> len buf' = len buf + length (op_bytes x)
     \<and> iobuf_contents buf' =
         (case x of Append bs \<Rightarrow> iobuf_contents buf @ bs | Prepend bs \<Rightarrow> bs @ iobuf_contents buf)
     \<and> sz buf' = max (sz buf) (len buf + length (op_bytes x)) \<and> fds buf' = fds buf"
proof (cases x)
  case (Append bs)
  with iobuf_append_spec[OF assms, of bs] show ?thesis by simp
next
  case (Prepend bs)
  with iobuf_prepend_spec[OF assms, of bs] show ?thesis by simp
qed

lemma apply_ops_spec:
  "iobuf_ok buf \<Longrightarrow>
   \<exists>buf'. apply_ops buf ops = Inr buf' \<and> iobuf_ok buf'
     \<and> len buf' = len buf + sum_list (map (length \<circ> op_bytes) ops)
     \<and> iobuf_contents buf' =
         concat (rev (prepend_chunks ops)) @ iobuf_contents buf @ concat (append_chunks ops)
     \<and> sz buf' = max (sz buf) (len buf + sum_list (map (length \<circ> op_bytes) ops))
     \<and> fds buf' = fds buf"
proof (induction ops arbitrary: buf)
  case Nil
  then show ?case by (auto elim!: iobuf_okD)
next
  case (Cons x ops)
  from apply_op_spec[OF Cons.prems, of x] obtain buf1 where
    1: "apply_op buf x = Inr buf1" "iobuf_ok buf1"
    "len buf1 = len buf + length (op_bytes x)"
    "iobuf_contents buf1 =
       (case x of Append bs \<Rightarrow> iobuf_contents buf @ bs | Prepend bs \<Rightarrow> bs @ iobuf_contents buf)"
    "sz buf1 = max (sz buf) (len buf + length (op_bytes x))" "fds buf1 = fds buf"
    by blast
  from Cons.IH[OF 1(2)] obtain buf2 where
    2: "apply_ops buf1 ops = Inr buf2" "iobuf_ok buf2"
    "len buf2 = len buf1 + sum_list (map (length \<circ> op_bytes) ops)"
    "iobuf_contents buf2 =
       concat (rev (prepend_chunks ops)) @ iobuf_contents buf1 @ concat (append_chunks ops)"
    "sz buf2 = max (sz buf1) (len buf1 + sum_list (map (length \<circ> op_bytes) ops))"
    "fds buf2 = fds buf1"
    by blast
  have "apply_ops buf (x # ops) = Inr buf2" using 1(1) 2(1) by simp
  moreover have "iobuf_contents buf2 =
      concat (rev (prepend_chunks (x # ops))) @ iobuf_contents buf
        @ concat (append_chunks (x # ops))"
    unfolding 2(4) 1(4) by (cases x) simp_all
  ultimately show ?case using 2(2,3,5,6) 1(3,5,6) by (auto simp: comp_def)
qed

text \<open>
  Claim C4. Any sequence of \<^verbatim>\<open>iobuf_append\<close> and \<^verbatim>\<open>iobuf_prepend\<close> calls on a
  buffer fresh from \<^verbatim>\<open>iobuf_new\<close> runs without a fault. After it the length
  is the sum of the lengths of all chunks, the contents are the prepended
  chunks, last call first, followed by the appended chunks in call order, and
  the block has the recorded size, which is the larger of the size given to
  \<^verbatim>\<open>iobuf_new\<close> and the length. Any further call runs without a fault as well,
  grows the block to the new length when that exceeds its size, and keeps all
  the bytes held: they follow the chunk of a prepend and precede the chunk of
  an append.
\<close>

theorem iobuf_append_prepend_contents:
  "\<exists>buf. apply_ops (iobuf_new cap) ops = Inr buf
     \<and> iobuf_ok buf
     \<and> len buf = sum_list (map (length \<circ> op_bytes) ops)
     \<and> iobuf_contents buf = concat (rev (prepend_chunks ops)) @ concat (append_chunks ops)
     \<and> sz buf = max cap (sum_list (map (length \<circ> op_bytes) ops))
     \<and> (\<forall>x. \<exists>buf'. apply_op buf x = Inr buf' \<and> iobuf_ok buf'
            \<and> sz buf' = max (sz buf) (len buf + length (op_bytes x))
            \<and> iobuf_contents buf' =
                (case x of Append bs \<Rightarrow> iobuf_contents buf @ bs
                         | Prepend bs \<Rightarrow> bs @ iobuf_contents buf))"
proof -
  have e: "len (iobuf_new cap) = 0" "iobuf_contents (iobuf_new cap) = []"
    "sz (iobuf_new cap) = cap"
    by (simp_all add: iobuf_new_def iobuf_contents_def)
  from apply_ops_spec[OF iobuf_new_ok, of cap ops] obtain buf where
    b: "apply_ops (iobuf_new cap) ops = Inr buf" "iobuf_ok buf"
    "len buf = sum_list (map (length \<circ> op_bytes) ops)"
    "iobuf_contents buf = concat (rev (prepend_chunks ops)) @ concat (append_chunks ops)"
    "sz buf = max cap (sum_list (map (length \<circ> op_bytes) ops))"
    unfolding e by auto
  have "\<exists>buf'. apply_op buf x = Inr buf' \<and> iobuf_ok buf'
            \<and> sz buf' = max (sz buf) (len buf + length (op_bytes x))
            \<and> iobuf_contents buf' =
                (case x of Append bs \<Rightarrow> iobuf_contents buf @ bs
                         | Prepend bs \<Rightarrow> bs @ iobuf_contents buf)" for x
    using apply_op_spec[OF b(2), of x] by blast
  with b show ?thesis by blast
qed

theorem iobuf_append_prepend_contents_witness:
  "apply_ops (iobuf_new 4) [Append [1, 2, 3], Prepend [4, 5], Append [6, 7]]
     = Inr \<lparr>sz = 7, len = 7, data = Some [4, 5, 1, 2, 3, 6, 7],
            fds = replicate ARRAY_LENGTH_fds (- 1)\<rparr>
   \<and> iobuf_contents \<lparr>sz = 7, len = 7, data = Some [4, 5, 1, 2, 3, 6, 7],
                      fds = replicate ARRAY_LENGTH_fds (- 1)\<rparr> = [4, 5, 1, 2, 3, 6, 7]
   \<and> apply_op \<lparr>sz = 7, len = 7, data = Some [4, 5, 1, 2, 3, 6, 7],
                 fds = replicate ARRAY_LENGTH_fds (- 1)\<rparr> (Prepend [8])
     = Inr \<lparr>sz = 8, len = 8, data = Some [8, 4, 5, 1, 2, 3, 6, 7],
            fds = replicate ARRAY_LENGTH_fds (- 1)\<rparr>"
proof -
  let ?ops = "[Append [1, 2, 3], Prepend [4, 5], Append [6, 7 :: byte]]"
  let ?b = "\<lparr>sz = 7, len = 7, data = Some [4, 5, 1, 2, 3, 6, 7 :: byte],
            fds = replicate ARRAY_LENGTH_fds (- 1)\<rparr>"
  have v: "apply_ops (iobuf_new 4) ?ops = Inr ?b"
    by (simp add: iobuf_new_def iobuf_append_def iobuf_prepend_def iobuf_extend_def
        iobuf_resize_def memcpy_def memmove_def malloc_def Let_def)
  from iobuf_append_prepend_contents[of 4 ?ops] v
  have c: "iobuf_contents ?b = [4, 5, 1, 2, 3, 6, 7]"
    and n: "\<forall>x. \<exists>buf'. apply_op ?b x = Inr buf' \<and> iobuf_ok buf'
            \<and> sz buf' = max (sz ?b) (len ?b + length (op_bytes x))
            \<and> iobuf_contents buf' =
                (case x of Append bs \<Rightarrow> iobuf_contents ?b @ bs
                         | Prepend bs \<Rightarrow> bs @ iobuf_contents ?b)"
    by auto
  have "apply_op ?b (Prepend [8]) = Inr \<lparr>sz = 8, len = 8, data = Some [8, 4, 5, 1, 2, 3, 6, 7],
            fds = replicate ARRAY_LENGTH_fds (- 1)\<rparr>"
    by (simp add: iobuf_prepend_def iobuf_resize_def memcpy_def memmove_def malloc_def)
  with v c show ?thesis by simp
qed

text \<open>
  Claim C8, as stated, fails: \<^verbatim>\<open>iobuf_take_data\<close> allocates the new storage
  with the capacity the buffer has grown to, not the one given to
  \<^verbatim>\<open>iobuf_new\<close>. A buffer created with capacity 4 that has received 6 bytes is
  after \<^verbatim>\<open>iobuf_take_data\<close> as \<^verbatim>\<open>iobuf_new\<close> makes it for capacity 6, not 4.
\<close>

theorem iobuf_take_data_original_capacity_counterexample:
  "bindr (iobuf_append (iobuf_new 4) [1, 2, 3, 4, 5, 6]) iobuf_take_data
     = Inr (Some [1, 2, 3, 4, 5, 6], iobuf_new 6)
   \<and> sz (iobuf_new 6) = 6 \<and> iobuf_new 6 \<noteq> iobuf_new 4"
  by (simp add: iobuf_take_data_def iobuf_append_def iobuf_extend_def iobuf_resize_def
      iobuf_new_def memcpy_def malloc_def Let_def eval_nat_numeral)

text \<open>
  Claim C8, amended. \<^verbatim>\<open>iobuf_take_data\<close> hands the current byte storage to the
  caller and leaves the buffer with length 0 and freshly allocated storage of
  its current capacity, the descriptor queue untouched. For a buffer built by
  appends and prepends from \<^verbatim>\<open>iobuf_new\<close>, the current capacity is the larger
  of the capacity chosen at \<^verbatim>\<open>iobuf_new\<close> and the number of bytes held, so it is
  the original capacity exactly as long as the contents never outgrew it.
\<close>

theorem iobuf_take_data_current_capacity:
  "iobuf_take_data buf = Inr (data buf, (iobuf_new (sz buf))\<lparr>fds := fds buf\<rparr>)
   \<and> (\<exists>b. apply_ops (iobuf_new cap) ops = Inr b
          \<and> sz b = max cap (sum_list (map (length \<circ> op_bytes) ops)))"
proof -
  have "iobuf_take_data buf = Inr (data buf, (iobuf_new (sz buf))\<lparr>fds := fds buf\<rparr>)"
    by (simp add: iobuf_take_data_def iobuf_resize_def iobuf_new_def Let_def)
  moreover have "\<exists>b. apply_ops (iobuf_new cap) ops = Inr b
          \<and> sz b = max cap (sum_list (map (length \<circ> op_bytes) ops))"
    using apply_ops_spec[OF iobuf_new_ok, of cap ops] by (auto simp: iobuf_new_def)
  ultimately show ?thesis by simp
qed

theorem iobuf_take_data_current_capacity_witness:
  "iobuf_take_data (iobuf_new 10) = Inr (data (iobuf_new 10), iobuf_new 10)
   \<and> (\<exists>b. apply_ops (iobuf_new 4) [Append [1, 2, 3, 4, 5, 6]] = Inr b \<and> sz b = 6)"
  using iobuf_take_data_current_capacity[of "iobuf_new 10" 4 "[Append [1, 2, 3, 4, 5, 6]]"]
  by (auto simp: iobuf_new_def)

subsection \<open>The descriptor queue\<close>

lemma append_fd_loop_full:
  "\<forall>i. idx \<le> i \<and> i < ARRAY_LENGTH_fds - 1 \<longrightarrow> fds buf ! i \<noteq> - 1 \<Longrightarrow>
   append_fd_loop w buf d idx = (- errno_val ENOMEM, w, buf)"
proof (induction w buf d idx rule: append_fd_loop.induct)
  case (1 w buf d idx)
  show ?case
  proof (cases "idx < ARRAY_LENGTH_fds - 1")
    case True
    with 1 show ?thesis
      by (subst append_fd_loop.simps) auto
  next
    case False
    then show ?thesis by (subst append_fd_loop.simps) simp
  qed
qed

lemma append_fd_loop_free:
  "\<lbrakk>\<forall>i. idx \<le> i \<and> i < k \<longrightarrow> fds buf ! i \<noteq> - 1; idx \<le> k; k < ARRAY_LENGTH_fds - 1;
    fds buf ! k = - 1\<rbrakk> \<Longrightarrow>
   append_fd_loop w buf d idx =
     (case dup w d of (f, w') \<Rightarrow>
        if f = - 1 then (- errno_val (errno w'), w', buf)
        else (0, w', buf\<lparr>fds := (fds buf)[k := f]\<rparr>))"
proof (induction w buf d idx rule: append_fd_loop.induct)
  case (1 w buf d idx)
  show ?case
  proof (cases "idx = k")
    case True
    with 1 show ?thesis
      by (subst append_fd_loop.simps) (simp split: prod.splits)
  next
    case False
    with 1 have "idx < k" "fds buf ! idx \<noteq> - 1" by auto
    with 1 show ?thesis
      by (subst append_fd_loop.simps) auto
  qed
qed

lemma takeWhile_nth_holds: "i < length (takeWhile P xs) \<Longrightarrow> P (xs ! i)"
  by (metis nth_mem set_takeWhileD takeWhile_nth)

lemma nfds_le: "iobuf_nfds buf \<le> ARRAY_LENGTH_fds - 1"
  unfolding iobuf_nfds_def
  by (metis length_take length_takeWhile_le min.cobounded2 order_trans)

lemma nfds_before:
  assumes "length (fds buf) = ARRAY_LENGTH_fds" "i < iobuf_nfds buf"
  shows "fds buf ! i \<noteq> - 1"
proof -
  let ?xs = "take (ARRAY_LENGTH_fds - 1) (fds buf)"
  have "?xs ! i \<noteq> - 1" using assms(2) unfolding iobuf_nfds_def
    by (rule takeWhile_nth_holds)
  moreover have "i < ARRAY_LENGTH_fds - 1" using assms(2) nfds_le[of buf] by simp
  ultimately show ?thesis by simp
qed

lemma nfds_at:
  assumes "length (fds buf) = ARRAY_LENGTH_fds" "iobuf_nfds buf < ARRAY_LENGTH_fds - 1"
  shows "fds buf ! iobuf_nfds buf = - 1"
proof -
  let ?xs = "take (ARRAY_LENGTH_fds - 1) (fds buf)"
  have "length ?xs = ARRAY_LENGTH_fds - 1" using assms(1) by simp
  with assms(2) have "length (takeWhile (\<lambda>x. x \<noteq> - 1) ?xs) < length ?xs"
    by (simp add: iobuf_nfds_def)
  then have "\<not> (?xs ! length (takeWhile (\<lambda>x. x \<noteq> - 1) ?xs) \<noteq> - 1)"
    by (rule nth_length_takeWhile)
  then show ?thesis using assms(2) by (simp add: iobuf_nfds_def)
qed

lemma append_fd_full:
  assumes "length (fds buf) = ARRAY_LENGTH_fds" "iobuf_nfds buf = 31"
  shows "iobuf_append_fd w buf d = (- errno_val ENOMEM, w, buf)"
  unfolding iobuf_append_fd_def
  by (rule append_fd_loop_full)
    (use assms(2) nfds_before[OF assms(1)] in \<open>simp add: ARRAY_LENGTH_fds_def\<close>)

lemma append_fd_free:
  assumes "length (fds buf) = ARRAY_LENGTH_fds" "iobuf_nfds buf < 31"
  shows "iobuf_append_fd w buf d =
           (case dup w d of (f, w') \<Rightarrow>
              if f = - 1 then (- errno_val (errno w'), w', buf)
              else (0, w', buf\<lparr>fds := (fds buf)[iobuf_nfds buf := f]\<rparr>))"
  unfolding iobuf_append_fd_def
  by (rule append_fd_loop_free)
    (use assms(2) nfds_before[OF assms(1)] nfds_at[OF assms(1)]
      in \<open>simp_all add: ARRAY_LENGTH_fds_def\<close>)

text \<open>
  Claim C2. When the usable slots 0 to 30 all hold descriptors,
  \<^verbatim>\<open>iobuf_append_fd\<close> returns \<open>-ENOMEM\<close>, does not call \<^verbatim>\<open>dup\<close> (the descriptor
  table is as before) and leaves the buffer as it was, bytes and queue. With
  fewer than 31 descriptors queued it calls \<^verbatim>\<open>dup\<close> and stores the duplicate
  in the first free slot (when \<^verbatim>\<open>dup\<close> itself fails, its error is returned and
  the buffer is as before). The sentinel slot 31 is never written.
\<close>

theorem iobuf_append_fd_full_or_first_free:
  assumes "length (fds buf) = ARRAY_LENGTH_fds"
  shows "(iobuf_nfds buf = 31 \<longrightarrow>
            iobuf_append_fd w buf d = (- errno_val ENOMEM, w, buf))
       \<and> (iobuf_nfds buf < 31 \<longrightarrow>
            iobuf_append_fd w buf d =
              (case dup w d of (f, w') \<Rightarrow>
                 if f = - 1 then (- errno_val (errno w'), w', buf)
                 else (0, w', buf\<lparr>fds := (fds buf)[iobuf_nfds buf := f]\<rparr>)))
       \<and> fds (snd (snd (iobuf_append_fd w buf d))) ! 31 = fds buf ! 31"
proof -
  note full = append_fd_full[OF assms, of w d]
  note free = append_fd_free[OF assms, of w d]
  have "iobuf_nfds buf = 31 \<or> iobuf_nfds buf < 31"
    using nfds_le[of buf] by (auto simp: ARRAY_LENGTH_fds_def)
  then have "fds (snd (snd (iobuf_append_fd w buf d))) ! 31 = fds buf ! 31"
    using full free by (auto split: prod.splits)
  with full free show ?thesis by blast
qed

theorem iobuf_append_fd_full_or_first_free_witness:
  "iobuf_append_fd \<lparr>open_fds = [0, 1, 2, 7], max_fds = 8, errno = EPERM\<rparr>
      ((iobuf_new 10)\<lparr>fds := replicate 31 7 @ [- 1]\<rparr>) 7
    = (- 12, \<lparr>open_fds = [0, 1, 2, 7], max_fds = 8, errno = EPERM\<rparr>,
       (iobuf_new 10)\<lparr>fds := replicate 31 7 @ [- 1]\<rparr>)
   \<and> iobuf_append_fd \<lparr>open_fds = [0, 1, 2, 7], max_fds = 8, errno = EPERM\<rparr> (iobuf_new 10) 7
    = (0, \<lparr>open_fds = [3, 0, 1, 2, 7], max_fds = 8, errno = EPERM\<rparr>,
       (iobuf_new 10)\<lparr>fds := 3 # replicate 31 (- 1)\<rparr>)"
proof -
  let ?w = "\<lparr>open_fds = [0, 1, 2, 7], max_fds = 8, errno = EPERM\<rparr>"
  let ?full = "(iobuf_new 10)\<lparr>fds := replicate 31 7 @ [- 1]\<rparr>"
  have l1: "length (fds ?full) = ARRAY_LENGTH_fds"
    by (simp add: ARRAY_LENGTH_fds_def)
  have l2: "length (fds (iobuf_new 10)) = ARRAY_LENGTH_fds"
    by (simp add: iobuf_new_def)
  have n1: "iobuf_nfds ?full = 31"
    by (simp add: iobuf_nfds_def ARRAY_LENGTH_fds_def takeWhile_replicate)
  have n2: "iobuf_nfds (iobuf_new 10) = 0"
    by (simp add: iobuf_nfds_def iobuf_new_def ARRAY_LENGTH_fds_def takeWhile_replicate)
  have u: "[0..<8] = [0, 1, 2, 3, 4, 5, 6, 7]" by (simp add: upt_rec)
  have d: "dup ?w 7 = (3, \<lparr>open_fds = [3, 0, 1, 2, 7], max_fds = 8, errno = EPERM\<rparr>)"
    by (simp add: dup_def u)
  have r: "(fds (iobuf_new 10))[0 := 3] = 3 # replicate 31 (- 1)"
    by (simp add: iobuf_new_def ARRAY_LENGTH_fds_def numeral_eq_Suc)
  from iobuf_append_fd_full_or_first_free[OF l1, of ?w 7] n1
  have a: "iobuf_append_fd ?w ?full 7 = (- 12, ?w, ?full)" by simp
  from iobuf_append_fd_full_or_first_free[OF l2, of ?w 7] n2 d r
  have b: "iobuf_append_fd ?w (iobuf_new 10) 7 =
      (0, \<lparr>open_fds = [3, 0, 1, 2, 7], max_fds = 8, errno = EPERM\<rparr>,
       (iobuf_new 10)\<lparr>fds := 3 # replicate 31 (- 1)\<rparr>)" by simp
  from a b show ?thesis by simp
qed

lemma takeWhile_queue:
  "- 1 \<notin> set q \<Longrightarrow> takeWhile (\<lambda>x. x \<noteq> - 1) (q @ replicate n (- 1 :: int)) = q"
  by (induction q) (auto simp: takeWhile_replicate)

lemma fds_queue_rep:
  assumes "- 1 \<notin> set q" "fds buf = q @ replicate (32 - length q) (- 1)"
  shows "fds_queue buf = q"
  unfolding fds_queue_def assms(2) using assms(1) by (rule takeWhile_queue)

lemma fds_ok_rep:
  assumes "fds_ok buf"
  shows "- 1 \<notin> set (fds_queue buf)" "length (fds_queue buf) < 32"
    "fds buf = fds_queue buf @ replicate (32 - length (fds_queue buf)) (- 1)"
  using assms unfolding fds_ok_def fds_queue_def ARRAY_LENGTH_fds_def
  by (auto dest: set_takeWhileD)

lemma fds_okI:
  assumes "- 1 \<notin> set q" "length q < 32" "fds buf = q @ replicate (32 - length q) (- 1)"
  shows "fds_ok buf"
  using assms fds_queue_rep[OF assms(1,3)] by (simp add: fds_ok_def ARRAY_LENGTH_fds_def)

lemma iobuf_new_fds_ok: "fds_ok (iobuf_new n) \<and> fds_queue (iobuf_new n) = []"
proof -
  have r: "fds (iobuf_new n) = [] @ replicate (32 - length ([] :: int list)) (- 1)"
    by (simp add: iobuf_new_def ARRAY_LENGTH_fds_def)
  have "fds_ok (iobuf_new n)" by (rule fds_okI[OF _ _ r]) simp_all
  moreover have "fds_queue (iobuf_new n) = []" by (rule fds_queue_rep[OF _ r]) simp
  ultimately show ?thesis by simp
qed

lemma take_fd_empty:
  assumes "fds_ok buf" "fds_queue buf = []"
  shows "iobuf_take_fd buf = (- 1, buf)"
  using fds_ok_rep(3)[OF assms(1)] assms(2)
  by (simp add: iobuf_take_fd_def)

lemma take_fd_nonempty:
  assumes "fds_ok buf" "fds_queue buf = x # q"
  shows "fst (iobuf_take_fd buf) = x \<and> fds_ok (snd (iobuf_take_fd buf))
       \<and> fds_queue (snd (iobuf_take_fd buf)) = q"
proof -
  have x: "x \<noteq> - 1" "- 1 \<notin> set q" "length q < 31"
    using fds_ok_rep(1,2)[OF assms(1)] assms(2) by auto
  have rep: "fds buf = x # q @ replicate (31 - length q) (- 1)"
    using fds_ok_rep(3)[OF assms(1)] assms(2) by simp
  define n where "n = 30 - length q"
  have lq: "length q = 30 - n" "n \<le> 30" using x(3) by (auto simp: n_def)
  have r1: "31 - length q = Suc n" "32 - length q = Suc (Suc n)" using lq by auto
  have t: "take 31 (q @ replicate (Suc n) (- 1 :: int)) = q @ replicate (Suc n) (- 1)"
    using lq by simp
  have "replicate (Suc n) (- 1 :: int) = replicate n (- 1) @ [- 1]"
    by (simp add: replicate_append_same)
  then have d: "drop 31 (x # q @ replicate (Suc n) (- 1 :: int)) = [- 1]"
    using lq by simp
  have new: "fds (snd (iobuf_take_fd buf)) = q @ replicate (32 - length q) (- 1)"
    using x(1) rep t d unfolding r1
    by (simp add: iobuf_take_fd_def ARRAY_LENGTH_fds_def Let_def replicate_append_same)
  have "fds_queue (snd (iobuf_take_fd buf)) = q"
    by (rule fds_queue_rep[OF x(2) new])
  moreover have "fds_ok (snd (iobuf_take_fd buf))"
    by (rule fds_okI[OF x(2) _ new]) (use x(3) in simp)
  moreover have "fst (iobuf_take_fd buf) = x" using rep x(1) by (simp add: iobuf_take_fd_def)
  ultimately show ?thesis by simp
qed

lemma take_fds_spec:
  "fds_ok buf \<Longrightarrow> fst (take_fds n buf) = take n (fds_queue buf @ replicate n (- 1))"
proof (induction n arbitrary: buf)
  case 0
  then show ?case by simp
next
  case (Suc n)
  show ?case
  proof (cases "fds_queue buf")
    case Nil
    have "fst (take_fds (Suc n) buf) = - 1 # fst (take_fds n buf)"
      using Suc.prems Nil by (simp add: take_fd_empty case_prod_beta)
    also have "fst (take_fds n buf) = replicate n (- 1)"
      using Suc.IH[OF Suc.prems] Nil by simp
    finally show ?thesis using Nil by simp
  next
    case (Cons x q)
    let ?b = "snd (iobuf_take_fd buf)"
    from take_fd_nonempty[OF Suc.prems Cons]
    have h: "fst (iobuf_take_fd buf) = x" "fds_ok ?b" "fds_queue ?b = q" by simp_all
    have "fst (take_fds (Suc n) buf) = x # fst (take_fds n ?b)"
      using h(1) by (simp add: case_prod_beta)
    also have "fst (take_fds n ?b) = take n (q @ replicate n (- 1))"
      using Suc.IH[OF h(2)] h(3) by simp
    finally show ?thesis using Cons
      by (simp del: replicate_Suc add: min_def)
  qed
qed

lemma fds_ok_nfds:
  assumes "fds_ok buf"
  shows "length (fds buf) = ARRAY_LENGTH_fds" "iobuf_nfds buf = length (fds_queue buf)"
proof -
  let ?q = "fds_queue buf"
  note r = fds_ok_rep[OF assms]
  show "length (fds buf) = ARRAY_LENGTH_fds"
    using r(2) by (subst r(3)) (simp add: ARRAY_LENGTH_fds_def)
  have "take 31 (fds buf) = ?q @ replicate (31 - length ?q) (- 1)"
    using r(2) by (subst r(3)) simp
  then show "iobuf_nfds buf = length ?q"
    using r(1) by (simp add: iobuf_nfds_def ARRAY_LENGTH_fds_def takeWhile_queue)
qed

lemma append_fd_ok:
  assumes "fds_ok buf" "iobuf_append_fd w buf d = (0, w1, buf1)"
  shows "fds_ok buf1 \<and> fds_queue buf1 = fds_queue buf @ [fst (dup w d)] \<and> w1 = snd (dup w d)"
proof -
  let ?q = "fds_queue buf"
  note r = fds_ok_rep[OF assms(1)]
  note n = fds_ok_nfds[OF assms(1)]
  obtain f w' where d: "dup w d = (f, w')" by (cases "dup w d")
  have lt: "length ?q < 31"
  proof (rule ccontr)
    assume "\<not> length ?q < 31"
    with r(2) have "iobuf_nfds buf = 31" using n(2) by simp
    from append_fd_full[OF n(1) this, of w d] assms(2) show False by simp
  qed
  with append_fd_free[OF n(1), of w d] n(2) d assms(2)
  have res: "f \<noteq> - 1" "w1 = w'" "buf1 = buf\<lparr>fds := (fds buf)[length ?q := f]\<rparr>"
    using errno_val_pos[of "errno w'"] by (auto split: if_splits)
  have "(fds buf)[length ?q := f] = ?q @ f # replicate (31 - length ?q) (- 1)"
  proof -
    from lt obtain m where m: "32 - length ?q = Suc m" "31 - length ?q = m"
      by (cases "32 - length ?q") auto
    show ?thesis by (subst r(3)) (simp add: m list_update_append)
  qed
  then have new: "fds buf1 = (?q @ [f]) @ replicate (32 - length (?q @ [f])) (- 1)"
    using res(3) by simp
  have nin: "- 1 \<notin> set (?q @ [f])" using r(1) res(1) by simp
  have len: "length (?q @ [f]) < 32" using lt by simp
  have "fds_queue buf1 = ?q @ [f]" by (rule fds_queue_rep[OF nin new])
  moreover have "fds_ok buf1" by (rule fds_okI[OF nin len new])
  ultimately show ?thesis using d res(2) by simp
qed

lemma append_fds_ok:
  "\<lbrakk>fds_ok buf; append_fds w buf fdl = (rcs, w', buf'); \<forall>rc \<in> set rcs. rc = 0\<rbrakk> \<Longrightarrow>
   fds_ok buf' \<and> fds_queue buf' = fds_queue buf @ dups w fdl"
proof (induction fdl arbitrary: w buf rcs w' buf')
  case Nil
  then show ?case by simp
next
  case (Cons d fdl)
  obtain rc w1 buf1 where a: "iobuf_append_fd w buf d = (rc, w1, buf1)"
    by (cases "iobuf_append_fd w buf d")
  obtain rcs1 w2 buf2 where b: "append_fds w1 buf1 fdl = (rcs1, w2, buf2)"
    by (cases "append_fds w1 buf1 fdl")
  from Cons.prems(2) a b have e: "rcs = rc # rcs1" "w' = w2" "buf' = buf2" by simp_all
  with Cons.prems(3) have z: "rc = 0" "\<forall>rc \<in> set rcs1. rc = 0" by simp_all
  from append_fd_ok[OF Cons.prems(1) a[unfolded z(1)]]
  have s: "fds_ok buf1" "fds_queue buf1 = fds_queue buf @ [fst (dup w d)]" "w1 = snd (dup w d)"
    by simp_all
  from Cons.IH[OF s(1) b z(2)] s(2,3) e show ?case
    by (simp add: case_prod_beta)
qed

text \<open>
  Claim C3. After \<^verbatim>\<open>iobuf_append_fd\<close> calls that all succeeded (on a fresh
  buffer, or on any buffer whose slot array has the shape the buffer
  operations keep), \<open>n\<close> successive \<^verbatim>\<open>iobuf_take_fd\<close> calls return the queued
  descriptors oldest first: those queued before, then the duplicates in the
  order of the appends. Once the queue is empty every further call returns
  \<open>-1\<close>, however large \<open>n\<close> is.
\<close>

theorem iobuf_take_fd_fifo:
  assumes "fds_ok buf" and "append_fds w buf fdl = (rcs, w', buf')"
    and "\<forall>rc \<in> set rcs. rc = 0"
  shows "fst (take_fds n buf') = take n (fds_queue buf @ dups w fdl @ replicate n (- 1))"
  using append_fds_ok[OF assms] take_fds_spec[of buf' n] by simp

theorem iobuf_take_fd_fifo_witness:
  "fds_ok (iobuf_new 10)
   \<and> append_fds \<lparr>open_fds = [0, 1, 2, 7], max_fds = 8, errno = EPERM\<rparr> (iobuf_new 10) [7, 7]
       = ([0, 0], \<lparr>open_fds = [4, 3, 0, 1, 2, 7], max_fds = 8, errno = EPERM\<rparr>,
          (iobuf_new 10)\<lparr>fds := 3 # 4 # replicate 30 (- 1)\<rparr>)
   \<and> fst (take_fds 4 ((iobuf_new 10)\<lparr>fds := 3 # 4 # replicate 30 (- 1)\<rparr>)) = [3, 4, - 1, - 1]"
proof -
  let ?w = "\<lparr>open_fds = [0, 1, 2, 7], max_fds = 8, errno = EPERM\<rparr>"
  let ?w1 = "\<lparr>open_fds = [3, 0, 1, 2, 7], max_fds = 8, errno = EPERM\<rparr>"
  let ?w2 = "\<lparr>open_fds = [4, 3, 0, 1, 2, 7], max_fds = 8, errno = EPERM\<rparr>"
  let ?b = "(iobuf_new 10)\<lparr>fds := 3 # 4 # replicate 30 (- 1)\<rparr>"
  have ok: "fds_ok (iobuf_new 10)" using iobuf_new_fds_ok by simp
  have q: "fds_queue (iobuf_new 10) = []" using iobuf_new_fds_ok by simp
  have u: "[0..<8] = [0, 1, 2, 3, 4, 5, 6, 7]" by (simp add: upt_rec)
  have d1: "dup ?w 7 = (3, ?w1)" by (simp add: dup_def u)
  have d2: "dup ?w1 7 = (4, ?w2)" by (simp add: dup_def u)
  have r: "replicate 32 (- 1 :: int) = - 1 # - 1 # replicate 30 (- 1)"
    by (simp add: numeral_eq_Suc)
  have a: "append_fds ?w (iobuf_new 10) [7, 7] = ([0, 0], ?w2, ?b)"
    by (simp add: iobuf_append_fd_def append_fd_loop.simps d1 d2 iobuf_new_def
        ARRAY_LENGTH_fds_def r)
  have z: "\<forall>rc \<in> set [0, 0 :: int]. rc = 0" by simp
  from iobuf_take_fd_fifo[OF ok a z, of 4] q d1 d2
  have "fst (take_fds 4 ?b) = [3, 4, - 1, - 1]"
    by (simp add: numeral_eq_Suc)
  with ok a show ?thesis by simp
qed

subsection \<open>Reading from a descriptor\<close>

lemma int_of_size_t_small: "n < 2 ^ 31 \<Longrightarrow> int_of_size_t n = int n"
  by (simp add: int_of_size_t_def)

lemma apply_ops_append:
  "apply_ops buf (xs @ ys) = bindr (apply_ops buf xs) (\<lambda>b. apply_ops b ys)"
proof (induction xs arbitrary: buf)
  case Nil
  then show ?case by simp
next
  case (Cons x xs)
  then show ?case by (cases "apply_op buf x") simp_all
qed

lemma append_from_fd_loop_full:
  "\<forall>bs \<in> set fulls. 1024 \<le> length bs \<Longrightarrow>
   append_from_fd_loop buf nread (map RdBytes fulls @ rs) =
   (case apply_ops buf (map Append (map (take 1024) fulls)) of
      Inl e \<Rightarrow> Some (Inl e)
    | Inr buf' \<Rightarrow> append_from_fd_loop buf' (nread + 1024 * length fulls) rs)"
proof (induction fulls arbitrary: buf nread)
  case Nil
  then show ?case by simp
next
  case (Cons bs fulls)
  then have l: "length (take 1024 bs) = 1024" by simp
  have eq: "nread + 1024 * length (bs # fulls) = nread + 1024 + 1024 * length fulls" by simp
  show ?case
  proof (cases "iobuf_append buf (take 1024 bs)")
    case (Inl e)
    have "append_from_fd_loop buf nread (map RdBytes (bs # fulls) @ rs) = Some (Inl e)"
      by (subst append_from_fd_loop.simps) (simp add: xread_def l Inl del: length_take)
    with Inl show ?thesis by simp
  next
    case (Inr buf1)
    have "append_from_fd_loop buf nread (map RdBytes (bs # fulls) @ rs) =
          append_from_fd_loop buf1 (nread + 1024) (map RdBytes fulls @ rs)"
      by (subst append_from_fd_loop.simps) (simp add: xread_def l Inr del: length_take)
    also have "\<dots> =
        (case apply_ops buf1 (map Append (map (take 1024) fulls)) of
           Inl e \<Rightarrow> Some (Inl e)
         | Inr buf' \<Rightarrow> append_from_fd_loop buf' (nread + 1024 * length (bs # fulls)) rs)"
      unfolding eq using Cons.prems by (intro Cons.IH) simp
    finally show ?thesis using Inr by simp
  qed
qed

lemma append_from_fd_stop:
  assumes "stops r" "nread + 1024 < (2::nat) ^ 31"
  shows "append_from_fd_loop buf nread (r # rest) =
     Some (bindr (apply_ops buf (map Append (case r of RdBytes bs \<Rightarrow> [bs] | RdErr e \<Rightarrow> [])))
       (\<lambda>buf'. Inr (case r of
                      RdBytes bs \<Rightarrow> int (nread + length bs)
                    | RdErr e \<Rightarrow> if e = EAGAIN \<and> nread \<noteq> 0 then int nread
                                 else - errno_val e,
                    buf', rest)))"
proof (cases r)
  case (RdBytes bs)
  with assms(1) have s: "length bs < 1024" by (simp add: stops_def)
  then have t: "take 1024 bs = bs" by simp
  have b: "nread + length bs < 2 ^ 31" "nread < 2 ^ 31" using s assms(2) by simp_all
  show ?thesis
  proof (cases "bs = []")
    case True
    then show ?thesis unfolding RdBytes using b
      by (subst append_from_fd_loop.simps)
        (simp add: xread_def int_of_size_t_small iobuf_append_def)
  next
    case False
    then show ?thesis unfolding RdBytes using s b
      by (subst append_from_fd_loop.simps)
        (cases "iobuf_append buf bs"; simp add: xread_def int_of_size_t_small t del: length_take)
  qed
next
  case (RdErr e)
  with assms(1) have ne: "e \<noteq> EINTR" by (simp add: stops_def)
  have n: "nread < 2 ^ 31" using assms(2) by simp
  have neg: "- errno_val e \<noteq> 0" "- errno_val e < 0" using errno_val_pos[of e] by simp_all
  show ?thesis
  proof (cases "e = EAGAIN")
    case True
    then show ?thesis unfolding RdErr using n
      by (subst append_from_fd_loop.simps) (auto simp: xread_def int_of_size_t_small)
  next
    case False
    then have "errno_val e \<noteq> 11" using errno_val_inj[of e EAGAIN] by simp
    with False show ?thesis unfolding RdErr using ne neg
      by (subst append_from_fd_loop.simps) (simp add: xread_def)
  qed
qed

lemma append_chunks_map_Append [simp]:
  "append_chunks (map Append cs) = cs" "prepend_chunks (map Append cs) = []"
  by (induction cs) simp_all

text \<open>
  Claim C5, as stated, fails where it says that the call returns the number
  of bytes read: a read failure other than would-block is returned as it is,
  also after earlier reads of the same call have appended bytes. Here the
  first read fills the 1024-byte unit and the second fails with EIO: 1024
  bytes are in the buffer and the call returns \<open>-EIO\<close>.
\<close>

theorem iobuf_append_from_fd_returns_count_counterexample:
  "iobuf_append_from_fd (iobuf_new 0) [RdBytes (replicate 1024 0), RdErr EIO]
     = Some (Inr (- 5, \<lparr>sz = 1024, len = 1024, data = Some (replicate 1024 0),
                         fds = replicate ARRAY_LENGTH_fds (- 1)\<rparr>, []))"
  by (simp add: iobuf_append_from_fd_def append_from_fd_loop.simps xread_def
      iobuf_append_def iobuf_extend_def iobuf_resize_def iobuf_new_def memcpy_def malloc_def
      Let_def)

text \<open>
  Claim C5, amended. The loop of \<^verbatim>\<open>iobuf_append_from_fd\<close> goes on exactly while
  each read fills the whole 1024-byte unit, appending each unit, and ends at
  the first read that does not: a short read, the end of the stream,
  would-block or another failure; no later read is made. After a short read
  or the end of the stream the call returns the number of bytes read, which
  is 0 only when nothing was read and the stream ended. On would-block it
  returns the number of bytes read so far, or \<open>-EAGAIN\<close> when nothing was read.
  On any other failure it returns the negative error code, whether or not
  earlier reads of the call appended bytes. (For totals that fit the \<open>int\<close>
  return type.) The buffer is the one that the \<^verbatim>\<open>iobuf_append\<close> calls for the
  units and the short read leave; on a buffer whose block has the recorded
  size none of them faults, and the bytes read follow the bytes held before.
\<close>

theorem iobuf_append_from_fd_result:
  assumes "\<forall>bs \<in> set fulls. 1024 \<le> length bs" and "stops r"
    and "1024 * (length fulls + 1) < (2::nat) ^ 31"
  shows "iobuf_append_from_fd buf (map RdBytes fulls @ r # rest) =
     Some (bindr
       (apply_ops buf (map Append
          (map (take 1024) fulls @ (case r of RdBytes bs \<Rightarrow> [bs] | RdErr e \<Rightarrow> []))))
       (\<lambda>buf'. Inr (case r of
                      RdBytes bs \<Rightarrow> int (1024 * length fulls + length bs)
                    | RdErr e \<Rightarrow> if e = EAGAIN \<and> fulls \<noteq> [] then int (1024 * length fulls)
                                 else - errno_val e,
                    buf', rest)))
   \<and> (iobuf_ok buf \<longrightarrow>
       (\<exists>buf'. apply_ops buf (map Append
            (map (take 1024) fulls @ (case r of RdBytes bs \<Rightarrow> [bs] | RdErr e \<Rightarrow> []))) = Inr buf'
          \<and> iobuf_ok buf'
          \<and> iobuf_contents buf' = iobuf_contents buf
               @ concat (map (take 1024) fulls @ (case r of RdBytes bs \<Rightarrow> [bs] | RdErr e \<Rightarrow> []))))"
proof (intro conjI impI)
  let ?last = "case r of RdBytes bs \<Rightarrow> [bs] | RdErr e \<Rightarrow> []"
  let ?rc = "case r of
               RdBytes bs \<Rightarrow> int (1024 * length fulls + length bs)
             | RdErr e \<Rightarrow> if e = EAGAIN \<and> fulls \<noteq> [] then int (1024 * length fulls)
                          else - errno_val e"
  let ?rc' = "case r of
               RdBytes bs \<Rightarrow> int (1024 * length fulls + length bs)
             | RdErr e \<Rightarrow> if e = EAGAIN \<and> 1024 * length fulls \<noteq> 0
                          then int (1024 * length fulls) else - errno_val e"
  have rc: "?rc' = ?rc" by (simp split: rd.splits)
  have 1: "iobuf_append_from_fd buf (map RdBytes fulls @ r # rest) =
     (case apply_ops buf (map Append (map (take 1024) fulls)) of
        Inl e \<Rightarrow> Some (Inl e)
      | Inr buf1 \<Rightarrow> append_from_fd_loop buf1 (1024 * length fulls) (r # rest))"
    unfolding iobuf_append_from_fd_def
    using append_from_fd_loop_full[OF assms(1), of buf 0 "r # rest"]
    by (simp cong: sum.case_cong)
  have 2: "append_from_fd_loop buf1 (1024 * length fulls) (r # rest) =
     Some (bindr (apply_ops buf1 (map Append ?last)) (\<lambda>buf'. Inr (?rc, buf', rest)))" for buf1
    using append_from_fd_stop[OF assms(2), of "1024 * length fulls" buf1 rest] assms(3)
    unfolding rc by simp
  show "iobuf_append_from_fd buf (map RdBytes fulls @ r # rest) =
     Some (bindr (apply_ops buf (map Append (map (take 1024) fulls @ ?last)))
       (\<lambda>buf'. Inr (?rc, buf', rest)))"
  proof (cases "apply_ops buf (map Append (map (take 1024) fulls))")
    case (Inl e)
    with 1 show ?thesis by (simp add: apply_ops_append)
  next
    case (Inr buf1)
    with 1 2[of buf1] show ?thesis by (simp add: apply_ops_append)
  qed
next
  let ?cs = "map (take 1024) fulls @ (case r of RdBytes bs \<Rightarrow> [bs] | RdErr e \<Rightarrow> [])"
  assume "iobuf_ok buf"
  from apply_ops_spec[OF this, of "map Append ?cs"] obtain buf' where
    r: "apply_ops buf (map Append ?cs) = Inr buf'" "iobuf_ok buf'"
    "iobuf_contents buf' = concat (rev (prepend_chunks (map Append ?cs)))
       @ iobuf_contents buf @ concat (append_chunks (map Append ?cs))"
    by blast
  have c: "append_chunks (map Append ?cs) = ?cs" "prepend_chunks (map Append ?cs) = []"
    by (rule append_chunks_map_Append)+
  from r(3) have "iobuf_contents buf' = iobuf_contents buf @ concat ?cs"
    unfolding c by simp
  with r(1,2) show "\<exists>buf'. apply_ops buf (map Append ?cs) = Inr buf' \<and> iobuf_ok buf'
          \<and> iobuf_contents buf' = iobuf_contents buf @ concat ?cs"
    by blast
qed

theorem iobuf_append_from_fd_result_witness:
  "iobuf_append_from_fd (iobuf_new 0) [RdBytes (replicate 1024 7), RdBytes [1, 2, 3], RdBytes [9]]
     = Some (Inr (1027, \<lparr>sz = 1027, len = 1027, data = Some (replicate 1024 7 @ [1, 2, 3]),
                          fds = replicate ARRAY_LENGTH_fds (- 1)\<rparr>, [RdBytes [9]]))
   \<and> iobuf_append_from_fd (iobuf_new 0) [RdBytes (replicate 1024 7), RdErr EAGAIN]
     = Some (Inr (1024, \<lparr>sz = 1024, len = 1024, data = Some (replicate 1024 7),
                          fds = replicate ARRAY_LENGTH_fds (- 1)\<rparr>, []))
   \<and> iobuf_append_from_fd (iobuf_new 0) [RdErr EAGAIN] = Some (Inr (- 11, iobuf_new 0, []))
   \<and> iobuf_append_from_fd (iobuf_new 0) [RdBytes []] = Some (Inr (0, iobuf_new 0, []))
   \<and> iobuf_append_from_fd (iobuf_new 0) [RdBytes (replicate 1024 7), RdErr EIO]
     = Some (Inr (- 5, \<lparr>sz = 1024, len = 1024, data = Some (replicate 1024 7),
                         fds = replicate ARRAY_LENGTH_fds (- 1)\<rparr>, []))
   \<and> iobuf_contents \<lparr>sz = 1027, len = 1027, data = Some (replicate 1024 7 @ [1, 2, 3]),
                      fds = replicate ARRAY_LENGTH_fds (- 1)\<rparr>
     = iobuf_contents (iobuf_new 0) @ replicate 1024 7 @ [1, 2, 3]"
proof -
  let ?b1 = "\<lparr>sz = 1024, len = 1024, data = Some (replicate 1024 (7 :: byte)),
              fds = replicate ARRAY_LENGTH_fds (- 1)\<rparr>"
  let ?b2 = "\<lparr>sz = 1027, len = 1027, data = Some (replicate 1024 (7 :: byte) @ [1, 2, 3]),
              fds = replicate ARRAY_LENGTH_fds (- 1)\<rparr>"
  have f: "\<forall>bs \<in> set [replicate 1024 (7 :: byte)]. 1024 \<le> length bs" by simp
  have e: "\<forall>bs \<in> set ([] :: byte list list). 1024 \<le> length bs" by simp
  have b1: "1024 * (length [replicate 1024 (7 :: byte)] + 1) < (2::nat) ^ 31" by simp
  have b0: "1024 * (length ([] :: byte list list) + 1) < (2::nat) ^ 31" by simp
  have s1: "stops (RdBytes [1, 2, 3])" by (simp add: stops_def)
  have s2: "stops (RdErr EAGAIN)" by (simp add: stops_def)
  have s3: "stops (RdBytes [])" by (simp add: stops_def)
  have s4: "stops (RdErr EIO)" by (simp add: stops_def)
  have a1: "iobuf_append (iobuf_new 0) (replicate 1024 7) = Inr ?b1"
    by (simp add: iobuf_append_def iobuf_extend_def iobuf_resize_def iobuf_new_def memcpy_def
        malloc_def Let_def)
  have a2: "iobuf_append ?b1 [1, 2, 3] = Inr ?b2"
    by (simp add: iobuf_append_def iobuf_extend_def iobuf_resize_def memcpy_def
        malloc_def Let_def eval_nat_numeral)
  have a0: "iobuf_append (iobuf_new 0) [] = Inr (iobuf_new 0)"
    by (simp add: iobuf_append_def)
  from iobuf_append_from_fd_result[OF f s1 b1, of "iobuf_new 0" "[RdBytes [9]]", THEN conjunct1]
  have 1: "iobuf_append_from_fd (iobuf_new 0)
             [RdBytes (replicate 1024 7), RdBytes [1, 2, 3], RdBytes [9]]
     = Some (Inr (1027, ?b2, [RdBytes [9]]))"
    by (simp add: a1 a2)
  from iobuf_append_from_fd_result[OF f s2 b1, of "iobuf_new 0" "[]", THEN conjunct1]
  have 2: "iobuf_append_from_fd (iobuf_new 0) [RdBytes (replicate 1024 7), RdErr EAGAIN]
     = Some (Inr (1024, ?b1, []))"
    by (simp add: a1)
  from iobuf_append_from_fd_result[OF e s2 b0, of "iobuf_new 0" "[]", THEN conjunct1]
  have 3: "iobuf_append_from_fd (iobuf_new 0) [RdErr EAGAIN] = Some (Inr (- 11, iobuf_new 0, []))"
    by simp
  from iobuf_append_from_fd_result[OF e s3 b0, of "iobuf_new 0" "[]", THEN conjunct1]
  have 4: "iobuf_append_from_fd (iobuf_new 0) [RdBytes []] = Some (Inr (0, iobuf_new 0, []))"
    by (simp add: a0)
  from iobuf_append_from_fd_result[OF f s4 b1, of "iobuf_new 0" "[]", THEN conjunct1]
  have 5: "iobuf_append_from_fd (iobuf_new 0) [RdBytes (replicate 1024 7), RdErr EIO]
     = Some (Inr (- 5, ?b1, []))"
    by (simp add: a1)
  from iobuf_append_from_fd_result[OF f s1 b1, of "iobuf_new 0" "[RdBytes [9]]", THEN conjunct2]
    iobuf_new_ok[of 0]
  have 6: "iobuf_contents ?b2 = iobuf_contents (iobuf_new 0) @ replicate 1024 7 @ [1, 2, 3]"
    by (simp add: a1 a2)
  from 1 2 3 4 5 6 show ?thesis by simp
qed

section \<open>Properties of the intrusive list\<close>

lemma get_node_simps [simp]:
  "H p = Some n \<Longrightarrow> get_node H p = Inr n"
  "H p = None \<Longrightarrow> get_node H p = Inl BadAccess"
  by (simp_all add: get_node_def)

lemma get_node_Inr_iff [simp]: "get_node H p = Inr n \<longleftrightarrow> H p = Some n"
  by (simp add: get_node_def split: option.splits)

lemma set_prev_Inr_iff:
  "set_prev H p v = Inr H' \<longleftrightarrow> (\<exists>n. H p = Some n \<and> H' = H(p \<mapsto> n\<lparr>prev := v\<rparr>))"
  by (auto simp: set_prev_def bindr_Inr_iff)

lemma set_next_Inr_iff:
  "set_next H p v = Inr H' \<longleftrightarrow> (\<exists>n. H p = Some n \<and> H' = H(p \<mapsto> n\<lparr>next := v\<rparr>))"
  by (auto simp: set_next_def bindr_Inr_iff)

lemma deref_simps [simp]: "deref None = Inl BadAccess" "deref (Some a) = Inr a"
  by (simp_all add: deref_def)

lemma list_remove_resets:
  assumes "list_remove H e = Inr H'"
  shows "H' e = Some null_node"
  using assms
  by (auto simp: list_remove_def bindr_Inr_iff set_prev_Inr_iff set_next_Inr_iff null_node_def
      split: if_splits)

lemma null_node_as_list:
  assumes "H e = Some null_node"
  shows "list_insert H e x = Inl Assertion" "list_append H e x = Inl Assertion"
    "list_remove H e = Inl Assertion" "list_empty H e = Inl Assertion"
  using assms
  by (simp_all add: list_insert_def list_append_def list_remove_def list_empty_def null_node_def)

lemma null_node_as_elm:
  assumes "H e = Some null_node" "H l = Some ln" "next ln \<noteq> None" "prev ln \<noteq> None"
  shows "list_insert H l e \<noteq> Inl Assertion" "list_append H l e \<noteq> Inl Assertion"
proof -
  have u: "elm_unused H e = Inr True" using assms(1) by (simp add: elm_unused_def null_node_def)
  have neq: "bindr m f \<noteq> Inl Assertion" if "m \<noteq> Inl Assertion" "\<And>x. m = Inr x \<Longrightarrow> f x \<noteq> Inl Assertion"
    for m :: "fault + 'c" and f :: "'c \<Rightarrow> fault + 'd"
    using that by (cases m) auto
  have sp: "set_prev G p v \<noteq> Inl Assertion" for G :: "'a node_store" and p v
    by (cases "G p") (simp_all add: set_prev_def)
  have sn: "set_next G p v \<noteq> Inl Assertion" for G :: "'a node_store" and p v
    by (cases "G p") (simp_all add: set_next_def)
  have gn: "get_node G p \<noteq> Inl Assertion" for G :: "'a node_store" and p
    by (cases "G p") simp_all
  have dr: "deref p \<noteq> Inl Assertion" for p :: "'a option"
    by (cases p) simp_all
  show "list_insert H l e \<noteq> Inl Assertion"
    using assms(2,3,4) u unfolding list_insert_def
    by (simp) (intro neq sp sn gn dr)
  show "list_append H l e \<noteq> Inl Assertion"
    using assms(2,3,4) u unfolding list_append_def
    by (simp) (intro neq sp sn gn dr)
qed

lemma linked_node_as_elm:
  assumes "H l \<noteq> None" "H e = Some en" "\<not> (next en = None \<and> prev en = None)" "next en \<noteq> Some e"
  shows "list_insert H l e = Inl Assertion" "list_append H l e = Inl Assertion"
proof -
  have u: "elm_unused H e = Inl Assertion \<or> elm_unused H e = Inr False"
    using assms(2,3,4) by (auto simp: elm_unused_def list_empty_def)
  obtain ln where l: "H l = Some ln" using assms(1) by auto
  show "list_insert H l e = Inl Assertion"
    using u l by (auto simp: list_insert_def)
  show "list_append H l e = Inl Assertion"
    using u l by (auto simp: list_append_def)
qed

text \<open>
  Claim C7, as stated, fails: a node that \<^verbatim>\<open>list_remove\<close> has spliced out can be
  given to \<^verbatim>\<open>list_append\<close> (or \<^verbatim>\<open>list_insert\<close>) as the element without
  \<^verbatim>\<open>list_init\<close>, and no assertion fails: the assertion on the element accepts
  two NULL pointers. Here element 1 is appended to head 0, removed (both its
  pointers are then NULL) and appended again; the call returns and the list
  is linked as after the first append.
\<close>

theorem list_reuse_after_remove_counterexample:
  "bindr (list_append (\<lambda>a::nat. Some (self_node a)) 0 1) (\<lambda>H1.
   bindr (list_remove H1 1) (\<lambda>H2.
   bindr (list_append H2 0 1) (\<lambda>H3. Inr (H2 1, H3 0, H3 1))))
   = Inr (Some null_node, Some \<lparr>prev = Some 1, next = Some 1\<rparr>,
          Some \<lparr>prev = Some 0, next = Some 0\<rparr>)"
  by (simp add: list_append_def list_remove_def elm_unused_def list_empty_def self_node_def
      null_node_def set_next_def set_prev_def)

text \<open>
  Claim C7, amended. \<^verbatim>\<open>list_remove\<close> leaves the spliced-out node with both
  pointers NULL. Using such a node as the list argument of \<^verbatim>\<open>list_insert\<close> or
  \<^verbatim>\<open>list_append\<close>, or giving it to \<^verbatim>\<open>list_remove\<close> or \<^verbatim>\<open>list_empty\<close>, fails an
  assertion. Giving it to \<^verbatim>\<open>list_insert\<close> or \<^verbatim>\<open>list_append\<close> as the element,
  on an initialised list, fails no assertion, also without \<^verbatim>\<open>list_init\<close>.
  Inserting or appending an element that is linked into a list (its pointers
  are not both NULL and it is not self-looped) fails the assertion.
\<close>

theorem list_remove_null_and_reuse:
  "(list_remove H e = Inr H' \<longrightarrow> H' e = Some null_node)
   \<and> (H e = Some null_node \<longrightarrow>
        list_insert H e x = Inl Assertion \<and> list_append H e x = Inl Assertion
        \<and> list_remove H e = Inl Assertion \<and> list_empty H e = Inl Assertion)
   \<and> (H e = Some null_node \<and> H l = Some ln \<and> next ln \<noteq> None \<and> prev ln \<noteq> None \<longrightarrow>
        list_insert H l e \<noteq> Inl Assertion \<and> list_append H l e \<noteq> Inl Assertion)
   \<and> (H l \<noteq> None \<and> H e = Some en \<and> \<not> (next en = None \<and> prev en = None)
        \<and> next en \<noteq> Some e \<longrightarrow>
        list_insert H l e = Inl Assertion \<and> list_append H l e = Inl Assertion)"
  using list_remove_resets[of H e H'] null_node_as_list(1,2)[of H e x]
    null_node_as_list(3,4)[of H e] null_node_as_elm[of H e l ln]
    linked_node_as_elm[of H l e en]
  by blast

theorem list_remove_null_and_reuse_witness:
  "bindr (list_remove two_linked 1) (\<lambda>H. Inr (H 0, H 1))
     = Inr (Some (self_node 0), Some null_node)
   \<and> list_insert one_removed 1 0 = Inl Assertion
   \<and> list_append one_removed 1 0 = Inl Assertion
   \<and> list_remove one_removed 1 = Inl Assertion
   \<and> list_empty one_removed 1 = Inl Assertion
   \<and> list_insert one_removed 0 1 \<noteq> Inl Assertion
   \<and> list_append one_removed 0 1 \<noteq> Inl Assertion
   \<and> list_insert two_linked 0 1 = Inl Assertion
   \<and> list_append two_linked 0 1 = Inl Assertion"
proof -
  let ?H2 = "two_linked(0 \<mapsto> \<lparr>prev = Some 1, next = Some 0\<rparr>,
               0 \<mapsto> \<lparr>prev = Some 0, next = Some 0\<rparr>,
               1 \<mapsto> \<lparr>prev = Some 0, next = None\<rparr>,
               1 \<mapsto> \<lparr>prev = None, next = None\<rparr>)"
  have r: "list_remove two_linked 1 = Inr ?H2"
    by (simp add: list_remove_def two_linked_def set_next_def set_prev_def)
  have a: "one_removed 1 = Some null_node" by (simp add: one_removed_def)
  have b: "one_removed 0 = Some (self_node 0)" by (simp add: one_removed_def)
  have c: "two_linked 0 \<noteq> None" "two_linked 1 = Some \<lparr>prev = Some 0, next = Some 0\<rparr>"
    by (simp_all add: two_linked_def)
  note t1 = list_remove_null_and_reuse[where H = two_linked and e = 1 and H' = ?H2
      and x = 0 and l = 0 and ln = null_node and en = null_node]
  note t2 = list_remove_null_and_reuse[where H = one_removed and e = 1 and x = 0 and l = 0
      and ln = "self_node 0" and H' = one_removed and en = null_node]
  note t3 = list_remove_null_and_reuse[where H = two_linked and e = 1 and l = 0
      and en = "\<lparr>prev = Some 0, next = Some 0\<rparr>" and H' = two_linked and x = 0
      and ln = null_node]
  have 1: "?H2 1 = Some null_node"
    by (rule t1[THEN conjunct1, THEN mp, OF r])
  have 2: "list_insert one_removed 1 0 = Inl Assertion \<and> list_append one_removed 1 0 = Inl Assertion
        \<and> list_remove one_removed 1 = Inl Assertion \<and> list_empty one_removed 1 = Inl Assertion"
    by (rule t2[THEN conjunct2, THEN conjunct1, THEN mp, OF a])
  have "one_removed 1 = Some null_node \<and> one_removed 0 = Some (self_node 0)
      \<and> next (self_node (0::nat)) \<noteq> None \<and> prev (self_node (0::nat)) \<noteq> None"
    using a b by (simp add: self_node_def)
  then have 3: "list_insert one_removed 0 1 \<noteq> Inl Assertion
      \<and> list_append one_removed 0 1 \<noteq> Inl Assertion"
    by (rule t2[THEN conjunct2, THEN conjunct2, THEN conjunct1, THEN mp])
  have "two_linked 0 \<noteq> None \<and> two_linked 1 = Some \<lparr>prev = Some 0, next = Some 0\<rparr>
      \<and> \<not> (next \<lparr>prev = Some (0::nat), next = Some (0::nat)\<rparr> = None
             \<and> prev \<lparr>prev = Some (0::nat), next = Some (0::nat)\<rparr> = None)
      \<and> next \<lparr>prev = Some (0::nat), next = Some (0::nat)\<rparr> \<noteq> Some 1"
    using c by simp
  then have 4: "list_insert two_linked 0 1 = Inl Assertion
      \<and> list_append two_linked 0 1 = Inl Assertion"
    by (rule t3[THEN conjunct2, THEN conjunct2, THEN conjunct2, THEN mp])
  have "?H2 0 = Some (self_node 0)" by (simp add: self_node_def)
  with r 1 2 3 4 show ?thesis by simp
qed

subsection \<open>The list operations on well-formed lists\<close>

lemma nxt_Some: "nxt H a = Some x \<Longrightarrow> \<exists>n. H a = Some n \<and> next n = Some x"
  by (auto simp: nxt_def split: option.splits)

lemma prv_Some: "prv H a = Some x \<Longrightarrow> \<exists>n. H a = Some n \<and> prev n = Some x"
  by (auto simp: prv_def split: option.splits)

lemma nxt_upd: "nxt (H(a \<mapsto> n)) = (nxt H)(a := next n)"
  by (auto simp: nxt_def fun_eq_iff)

lemma prv_upd: "prv (H(a \<mapsto> n)) = (prv H)(a := prev n)"
  by (auto simp: prv_def fun_eq_iff)

lemma chain_append:
  "chain N P p (xs @ y # ys) q \<longleftrightarrow> chain N P p xs y \<and> chain N P y ys q"
  by (induction xs arbitrary: p) auto

lemma chain_frame:
  "\<lbrakk>\<forall>a \<in> insert p (set xs). N' a = N a; \<forall>a \<in> insert q (set xs). P' a = P a\<rbrakk> \<Longrightarrow>
   chain N' P' p xs q = chain N P p xs q"
  by (induction xs arbitrary: p) auto

lemma chain_snoc:
  "chain N P p (xs @ [y]) q \<longleftrightarrow> chain N P p xs y \<and> N y = Some q \<and> P q = Some y"
  by (simp add: chain_append)

lemma chain_last:
  "chain N P p xs q \<Longrightarrow> P q = Some (last (p # xs)) \<and> N (last (p # xs)) = Some q"
  by (induction xs arbitrary: p) auto

lemma chain_hd:
  "chain N P p xs q \<Longrightarrow> N p = Some (hd (xs @ [q])) \<and> P (hd (xs @ [q])) = Some p"
  by (cases xs) auto

lemma list_remove_ptrs:
  assumes "nxt H e = Some n" "prv H e = Some p" "H p \<noteq> None" "H n \<noteq> None"
  shows "\<exists>H'. list_remove H e = Inr H'
     \<and> nxt H' = (nxt H)(p := Some n, e := None)
     \<and> prv H' = (prv H)(n := Some p, e := None)
     \<and> (\<forall>a. H' a \<noteq> None \<longleftrightarrow> H a \<noteq> None)"
proof -
  from assms(1,2) obtain en where en: "H e = Some en" "next en = Some n" "prev en = Some p"
    by (auto dest!: nxt_Some prv_Some)
  from assms(3) obtain pn where pn: "H p = Some pn" by auto
  let ?H1 = "H(p \<mapsto> pn\<lparr>next := Some n\<rparr>)"
  obtain en1 where en1: "?H1 e = Some en1" "next en1 = Some n" "prev en1 = Some p"
    using en pn by (cases "p = e") auto
  obtain nn where nn: "?H1 n = Some nn" using assms(4) by (cases "n = p") auto
  let ?H2 = "?H1(n \<mapsto> nn\<lparr>prev := Some p\<rparr>)"
  obtain en2 where en2: "?H2 e = Some en2" using en1 by (cases "n = e") auto
  let ?H3 = "?H2(e \<mapsto> en2\<lparr>next := None\<rparr>)"
  let ?H4 = "?H3(e \<mapsto> en2\<lparr>next := None, prev := None\<rparr>)"
  have r: "list_remove H e = Inr ?H4"
    using en pn en1 nn en2
    by (simp add: list_remove_def set_next_def set_prev_def fun_upd_same del: fun_upd_apply)
  have "nxt ?H4 = (nxt H)(p := Some n, e := None)"
    using nn pn by (auto simp: nxt_def fun_eq_iff split: if_splits)
  moreover have "prv ?H4 = (prv H)(n := Some p, e := None)"
    using nn pn by (auto simp: prv_def fun_eq_iff split: if_splits)
  moreover have "\<forall>a. ?H4 a \<noteq> None \<longleftrightarrow> H a \<noteq> None"
    using en pn assms(4) by auto
  ultimately show ?thesis using r by blast
qed

lemma list_append_ptrs:
  assumes "nxt H l \<noteq> None" "prv H l = Some t" "H e = Some en"
    "(next en = None \<and> prev en = None) \<or> (next en = Some e \<and> prev en = Some e)"
    "H t \<noteq> None" "e \<noteq> l" "e \<noteq> t"
  shows "\<exists>H'. list_append H l e = Inr H'
     \<and> nxt H' = (nxt H)(e := Some l, t := Some e)
     \<and> prv H' = (prv H)(e := Some t, l := Some e)
     \<and> (\<forall>a. H' a \<noteq> None \<longleftrightarrow> H a \<noteq> None)"
proof -
  from assms(1,2) obtain ln where ln: "H l = Some ln" "next ln \<noteq> None" "prev ln = Some t"
    by (auto simp: nxt_def dest!: prv_Some split: option.splits)
  from assms(5) obtain tn where tn: "H t = Some tn" by auto
  have u: "elm_unused H e = Inr True"
    using assms(3,4) by (auto simp: elm_unused_def list_empty_def)
  let ?H1 = "H(e \<mapsto> en\<lparr>next := Some l\<rparr>)"
  let ?H2 = "?H1(e \<mapsto> en\<lparr>next := Some l, prev := Some t\<rparr>)"
  let ?H3 = "?H2(l \<mapsto> ln\<lparr>prev := Some e\<rparr>)"
  let ?H4 = "?H3(t \<mapsto> (if t = l then ln\<lparr>prev := Some e\<rparr> else tn)\<lparr>next := Some e\<rparr>)"
  have r: "list_append H l e = Inr ?H4"
    using ln tn u assms(3,6,7)
    by (simp add: list_append_def set_next_def set_prev_def)
  have "nxt ?H4 = (nxt H)(e := Some l, t := Some e)"
    using ln tn assms(6,7) by (auto simp: nxt_def fun_eq_iff split: if_splits)
  moreover have "prv ?H4 = (prv H)(e := Some t, l := Some e)"
    using ln tn assms(6,7) by (auto simp: prv_def fun_eq_iff split: if_splits)
  moreover have "\<forall>a. ?H4 a \<noteq> None \<longleftrightarrow> H a \<noteq> None"
    using ln tn assms(3) by auto
  ultimately show ?thesis using r by blast
qed

lemma list_init_ptrs:
  assumes "H e \<noteq> None"
  shows "\<exists>H'. list_init H e = Inr H'
     \<and> nxt H' = (nxt H)(e := Some e) \<and> prv H' = (prv H)(e := Some e)
     \<and> (\<forall>a. H' a \<noteq> None \<longleftrightarrow> H a \<noteq> None)"
proof -
  from assms obtain en where en: "H e = Some en" by auto
  let ?H2 = "H(e \<mapsto> en\<lparr>prev := Some e\<rparr>, e \<mapsto> en\<lparr>prev := Some e, next := Some e\<rparr>)"
  have "list_init H e = Inr ?H2" using en by (simp add: list_init_def set_next_def set_prev_def)
  moreover have "nxt ?H2 = (nxt H)(e := Some e)" "prv ?H2 = (prv H)(e := Some e)"
    by (auto simp: nxt_def prv_def fun_eq_iff)
  moreover have "\<forall>a. ?H2 a \<noteq> None \<longleftrightarrow> H a \<noteq> None" using en by auto
  ultimately show ?thesis by blast
qed

lemma chain_retarget:
  "\<lbrakk>chain N P p xs q; q' \<notin> set xs; distinct (p # xs)\<rbrakk> \<Longrightarrow>
   chain (N(last (p # xs) := Some q')) (P(q' := Some (last (p # xs)))) p xs q'"
proof (induction xs arbitrary: p)
  case Nil
  then show ?case by simp
next
  case (Cons x xs)
  from Cons.prems have "p \<noteq> last (x # xs)"
    by (metis distinct.simps(2) last_in_set list.distinct(1))
  with Cons show ?case by auto
qed

lemma chain_alloc:
  assumes "chain (nxt H) (prv H) p xs q"
  shows "\<forall>a \<in> set (p # xs @ [q]). H a \<noteq> None"
  using assms
proof (induction xs arbitrary: p)
  case Nil
  then show ?case by (auto simp: nxt_def prv_def split: option.splits)
next
  case (Cons x xs)
  then show ?case by (auto simp: nxt_def prv_def split: option.splits)
qed

lemma dlist_remove:
  assumes "dlist H h (as @ e # bs)"
  shows "\<exists>H'. list_remove H e = Inr H' \<and> dlist H' h (as @ bs)
     \<and> nxt H' e = None \<and> prv H' e = None
     \<and> (\<forall>a. H' a \<noteq> None \<longleftrightarrow> H a \<noteq> None)
     \<and> (\<forall>a. a \<notin> set (h # as @ e # bs) \<longrightarrow> nxt H' a = nxt H a \<and> prv H' a = prv H a)"
proof -
  let ?N = "nxt H" and ?P = "prv H"
  define p where "p = last (h # as)"
  define n where "n = hd (bs @ [h])"
  from assms have d: "distinct (h # as @ e # bs)" and c: "chain ?N ?P h (as @ e # bs) h"
    by (simp_all add: dlist_def)
  from c have c1: "chain ?N ?P h as e" and c2: "chain ?N ?P e bs h"
    by (simp_all add: chain_append)
  from chain_last[OF c1] have pe: "?P e = Some p" "?N p = Some e" by (simp_all add: p_def)
  from chain_hd[OF c2] have en: "?N e = Some n" "?P n = Some e" by (simp_all add: n_def)
  have al: "H p \<noteq> None" "H n \<noteq> None"
    using pe(2) en(2) by (auto simp: nxt_def prv_def split: option.splits)
  from list_remove_ptrs[OF en(1) pe(1) al] obtain H' where
    r: "list_remove H e = Inr H'"
    and N': "nxt H' = ?N(p := Some n, e := None)"
    and P': "prv H' = ?P(n := Some p, e := None)"
    and a': "\<forall>a. H' a \<noteq> None \<longleftrightarrow> H a \<noteq> None"
    by blast
  have pin: "p \<in> set (h # as)" unfolding p_def by (metis last_in_set list.distinct(1))
  have nin: "n \<in> set (bs @ [h])" unfolding n_def by (metis hd_in_set snoc_eq_iff_butlast)
  have n_notin: "n \<notin> set as" using d nin by auto
  have e_notin: "e \<notin> set (h # as)" "e \<noteq> n" using d nin by auto
  from chain_retarget[OF c1 n_notin] d
  have r1: "chain (?N(p := Some n)) (?P(n := Some p)) h as n" by (simp add: p_def)
  have f1: "chain (nxt H') (prv H') h as n"
    unfolding N' P' using e_notin
    by (subst chain_frame[where N = "?N(p := Some n)" and P = "?P(n := Some p)"])
      (auto intro: r1)
  have ch: "chain (nxt H') (prv H') h (as @ bs) h"
  proof (cases bs)
    case Nil
    then show ?thesis using f1 by (simp add: n_def)
  next
    case (Cons b bs')
    then have nb: "n = b" by (simp add: n_def)
    from c2 Cons have c3: "chain ?N ?P b bs' h" by simp
    have "chain (nxt H') (prv H') b bs' h"
      unfolding N' P' using d pin Cons nb
      by (subst chain_frame[where N = ?N and P = ?P]) (auto intro: c3)
    with f1 nb Cons show ?thesis by (simp add: chain_append)
  qed
  have "dlist H' h (as @ bs)" using d ch by (simp add: dlist_def)
  moreover have "nxt H' e = None" "prv H' e = None" by (simp_all add: N' P')
  moreover have "\<forall>a. a \<notin> set (h # as @ e # bs) \<longrightarrow> nxt H' a = nxt H a \<and> prv H' a = prv H a"
    unfolding N' P' using pin nin by auto
  ultimately show ?thesis using r a' by blast
qed

lemma dlist_append:
  assumes "dlist H h xs" "e \<notin> set (h # xs)" "H e = Some en"
    "(next en = None \<and> prev en = None) \<or> (next en = Some e \<and> prev en = Some e)"
  shows "\<exists>H'. list_append H h e = Inr H' \<and> dlist H' h (xs @ [e])
     \<and> (\<forall>a. H' a \<noteq> None \<longleftrightarrow> H a \<noteq> None)
     \<and> (\<forall>a. a \<notin> set (h # xs) \<and> a \<noteq> e \<longrightarrow> nxt H' a = nxt H a \<and> prv H' a = prv H a)"
proof -
  let ?N = "nxt H" and ?P = "prv H"
  define t where "t = last (h # xs)"
  from assms(1) have d: "distinct (h # xs)" and c: "chain ?N ?P h xs h"
    by (simp_all add: dlist_def)
  from chain_last[OF c] have t: "?P h = Some t" "?N t = Some h" by (simp_all add: t_def)
  have tin: "t \<in> set (h # xs)" unfolding t_def by (metis last_in_set list.distinct(1))
  have ne: "e \<noteq> h" "e \<noteq> t" using assms(2) tin by auto
  have nh: "?N h \<noteq> None" using chain_hd[OF c] by simp
  have at: "H t \<noteq> None" using t(2) by (auto simp: nxt_def split: option.splits)
  from list_append_ptrs[OF nh t(1) assms(3,4) at ne] obtain H' where
    r: "list_append H h e = Inr H'"
    and N': "nxt H' = ?N(e := Some h, t := Some e)"
    and P': "prv H' = ?P(e := Some t, h := Some e)"
    and a': "\<forall>a. H' a \<noteq> None \<longleftrightarrow> H a \<noteq> None"
    by blast
  from chain_retarget[OF c _ d, of e] assms(2)
  have r1: "chain (?N(t := Some e)) (?P(e := Some t)) h xs e" by (simp add: t_def)
  have "chain (nxt H') (prv H') h xs e"
    unfolding N' P' using assms(2) d
    by (subst chain_frame[where N = "?N(t := Some e)" and P = "?P(e := Some t)"])
      (auto intro: r1)
  moreover have "nxt H' e = Some h" "prv H' h = Some e" using ne by (simp_all add: N' P')
  ultimately have "chain (nxt H') (prv H') h (xs @ [e]) h" by (simp add: chain_snoc)
  then have "dlist H' h (xs @ [e])" using d assms(2) by (auto simp: dlist_def)
  moreover have "\<forall>a. a \<notin> set (h # xs) \<and> a \<noteq> e \<longrightarrow> nxt H' a = nxt H a \<and> prv H' a = prv H a"
    unfolding N' P' using tin by auto
  ultimately show ?thesis using r a' by blast
qed

lemma dlist_frame:
  assumes "dlist H h xs" "\<forall>a \<in> set (h # xs). nxt H' a = nxt H a \<and> prv H' a = prv H a"
  shows "dlist H' h xs"
proof -
  have "chain (nxt H') (prv H') h xs h = chain (nxt H) (prv H) h xs h"
    by (rule chain_frame) (use assms(2) in auto)
  with assms(1) show ?thesis by (simp add: dlist_def)
qed

section \<open>Properties of the reactor\<close>

subsection \<open>Removing a source\<close>

lemma get_source_simps [simp]:
  "srcs st a = Some s \<Longrightarrow> get_source st a = Inr s"
  "srcs st a = None \<Longrightarrow> get_source st a = Inl BadAccess"
  by (simp_all add: get_source_def)

lemma update_source_simps [simp]:
  "srcs st a = Some s \<Longrightarrow> update_source st a f = Inr (st\<lparr>srcs := (srcs st)(a \<mapsto> f s)\<rparr>)"
  "srcs st a = None \<Longrightarrow> update_source st a f = Inl BadAccess"
  by (simp_all add: update_source_def)

lemma source_unref_keep:
  assumes "srcs st a = Some s" "2 \<le> refcount s"
  shows "source_unref st a = Inr (st\<lparr>srcs := (srcs st)(a \<mapsto> s\<lparr>refcount := refcount s - 1\<rparr>)\<rparr>)"
  using assms by (simp add: source_unref_def Let_def)

lemma source_unref_last:
  assumes "srcs st a = Some s" "refcount s = 1" "\<not> is_active s"
  shows "source_unref st a =
     Inr (st\<lparr>world := (if close_behavior s = SOURCE_CLOSE_FD_ON_DESTROY
                        then snd (xclose (world st) (fd s)) else world st),
             srcs := (srcs st)(a := None),
             nodes := (nodes st)(SourceLink a := None)\<rparr>)"
  using assms by (simp add: source_unref_def source_destroy_def Let_def split: prod.splits)

lemma source_ref_ok:
  assumes "srcs st a = Some s" "1 \<le> refcount s"
  shows "source_ref st a =
     Inr (st\<lparr>srcs := (srcs st)(a \<mapsto> s\<lparr>refcount := (refcount s + 1) mod 2 ^ 32\<rparr>)\<rparr>)"
  using assms by (simp add: source_ref_def)

lemma listed_ok_upd:
  assumes "listed_ok S xs ys" "S a = Some s" "is_active s' = is_active s"
    "sink s' = sink s" "a \<in> set xs \<longrightarrow> 2 \<le> refcount s'" "a \<in> set ys \<longrightarrow> 1 \<le> refcount s'"
  shows "listed_ok (S(a \<mapsto> s')) xs ys"
  using assms unfolding listed_ok_def by auto

lemma links_ok_upd:
  assumes "links_ok S H xs ys" "S a \<noteq> None"
  shows "links_ok (S(a \<mapsto> s')) H xs ys"
  unfolding links_ok_def
proof (intro allI conjI impI)
  fix b
  show "((S(a \<mapsto> s')) b = None) = (H (SourceLink b) = None)"
    using assms by (cases "b = a") (auto simp: links_ok_def)
  assume "(S(a \<mapsto> s')) b \<noteq> None \<and> b \<notin> set xs \<union> set ys"
  then have "S b \<noteq> None \<and> b \<notin> set xs \<union> set ys"
    using assms(2) by (cases "b = a") auto
  then show "unlinked H (SourceLink b)" using assms(1) by (simp add: links_ok_def)
qed

lemma sink_inv_srcs_upd:
  assumes "sink_inv st xs ys" "srcs st a = Some s" "is_active s' = is_active s"
    "sink s' = sink s" "a \<in> set xs \<longrightarrow> 2 \<le> refcount s'" "a \<in> set ys \<longrightarrow> 1 \<le> refcount s'"
  shows "sink_inv (st\<lparr>srcs := (srcs st)(a \<mapsto> s')\<rparr>) xs ys"
proof -
  have 1: "listed_ok (srcs st) xs ys" "links_ok (srcs st) (nodes st) xs ys"
    using assms(1) by (simp_all add: sink_inv_def)
  have "listed_ok ((srcs st)(a \<mapsto> s')) xs ys"
    by (rule listed_ok_upd[OF 1(1) assms(2-6)])
  moreover have "links_ok ((srcs st)(a \<mapsto> s')) (nodes st) xs ys"
    by (rule links_ok_upd[OF 1(2)]) (use assms(2) in simp)
  ultimately show ?thesis using assms(1) by (simp add: sink_inv_def)
qed

lemma sink_inv_env:
  "sink_inv (st\<lparr>world := w\<rparr>) xs ys = sink_inv st xs ys"
  "sink_inv (st\<lparr>interest := i\<rparr>) xs ys = sink_inv st xs ys"
  "sink_inv (st\<lparr>calls := c\<rparr>) xs ys = sink_inv st xs ys"
  "sink_inv (st\<lparr>ready := r\<rparr>) xs ys = sink_inv st xs ys"
  by (simp_all add: sink_inv_def)

lemma epoll_ctl_del_fields:
  "srcs (snd (epoll_ctl_del st e d)) = srcs st"
  "nodes (snd (epoll_ctl_del st e d)) = nodes st"
  "epollfd (snd (epoll_ctl_del st e d)) = epollfd st"
  "calls (snd (epoll_ctl_del st e d)) = calls st"
  by (simp_all add: epoll_ctl_del_def)

lemma sink_inv_epoll_ctl_del:
  "sink_inv (snd (epoll_ctl_del st e d)) xs ys = sink_inv st xs ys"
  by (simp add: sink_inv_def epoll_ctl_del_fields)

lemma xclose_fst: "fst (xclose w d) = - 1"
  by (simp add: xclose_def)

lemma source_remove_steps:
  assumes s: "srcs st a = Some s" "is_active s" "sink s = Some ()" "2 \<le> refcount s"
    and r: "list_remove (nodes st) (SourceLink a) = Inr H5"
    and ap: "list_append H5 SinkRemoved (SourceLink a) = Inr H6"
  shows "source_remove st (Some a) =
     Inr ((snd (epoll_ctl_del st (epollfd st) (fd s)))
           \<lparr>world := (if close_behavior s = SOURCE_CLOSE_FD_ON_REMOVE
                       then snd (xclose (world (snd (epoll_ctl_del st (epollfd st) (fd s)))) (fd s))
                       else world (snd (epoll_ctl_del st (epollfd st) (fd s)))),
             srcs := (srcs st)(a \<mapsto> removed_source s),
             nodes := H6\<rparr>)"
proof -
  obtain r1 st1 where d: "epoll_ctl_del st (epollfd st) (fd s) = (r1, st1)"
    by (cases "epoll_ctl_del st (epollfd st) (fd s)")
  have f: "srcs st1 = srcs st" "nodes st1 = nodes st"
    using epoll_ctl_del_fields(1,2)[of st "epollfd st" "fd s"] d by simp_all
  obtain w where x: "xclose (world st1) (fd s) = (- 1, w)"
    using xclose_fst[of "world st1" "fd s"] by (cases "xclose (world st1) (fd s)") simp
  show ?thesis
  proof (cases "close_behavior s = SOURCE_CLOSE_FD_ON_REMOVE")
    case True
    then show ?thesis
      using s r ap d f x
      by (simp add: source_remove_def source_unref_keep removed_source_def)
  next
    case False
    then show ?thesis
      using s r ap d f
      by (simp add: source_remove_def source_unref_keep removed_source_def)
  qed
qed

lemma SourceLink_in_map [simp]: "SourceLink b \<in> SourceLink ` A \<longleftrightarrow> b \<in> A"
  by auto

lemma unlinked_cong:
  "nxt H' e = nxt H e \<Longrightarrow> prv H' e = prv H e \<Longrightarrow> unlinked H' e = unlinked H e"
  by (simp add: unlinked_def)

lemma source_remove_lists:
  assumes inv: "sink_inv st xs ys" and a: "a \<in> set xs"
  shows "\<exists>H5 H6. list_remove (nodes st) (SourceLink a) = Inr H5
      \<and> list_append H5 SinkRemoved (SourceLink a) = Inr H6
      \<and> dlist H6 SinkSources (map SourceLink (remove1 a xs))
      \<and> dlist H6 SinkRemoved (map SourceLink (ys @ [a]))
      \<and> (\<forall>p. H6 p \<noteq> None \<longleftrightarrow> nodes st p \<noteq> None)
      \<and> (\<forall>b. b \<notin> set xs \<union> set ys \<longrightarrow>
             nxt H6 (SourceLink b) = nxt (nodes st) (SourceLink b)
             \<and> prv H6 (SourceLink b) = prv (nodes st) (SourceLink b))"
proof -
  let ?H = "nodes st" and ?e = "SourceLink a"
  from inv have d: "distinct (xs @ ys)"
    and l1: "dlist ?H SinkSources (map SourceLink xs)"
    and l2: "dlist ?H SinkRemoved (map SourceLink ys)"
    by (simp_all add: sink_inv_def)
  from a obtain as bs where xs: "xs = as @ a # bs" by (auto dest: split_list)
  with d have na: "a \<notin> set as" "a \<notin> set bs" "a \<notin> set ys" by auto
  have rm: "remove1 a xs = as @ bs" using xs na by (simp add: remove1_append)
  have l1x: "dlist ?H SinkSources (map SourceLink as @ ?e # map SourceLink bs)"
    using l1 xs by simp
  from dlist_remove[OF l1x] obtain H5 where
    r: "list_remove ?H ?e = Inr H5"
    and l1': "dlist H5 SinkSources (map SourceLink as @ map SourceLink bs)"
    and n5: "nxt H5 ?e = None" "prv H5 ?e = None"
    and al5: "\<forall>p. H5 p \<noteq> None \<longleftrightarrow> ?H p \<noteq> None"
    and fr5: "\<forall>p. p \<notin> set (SinkSources # map SourceLink as @ ?e # map SourceLink bs) \<longrightarrow>
                nxt H5 p = nxt ?H p \<and> prv H5 p = prv ?H p"
    by blast
  have fr5': "nxt H5 p = nxt ?H p \<and> prv H5 p = prv ?H p"
    if "p \<noteq> SinkSources" "p \<notin> SourceLink ` set xs" for p
    using fr5 that xs by auto
  have l2': "dlist H5 SinkRemoved (map SourceLink ys)"
    by (rule dlist_frame[OF l2]) (use d fr5' in auto)
  have "chain (nxt ?H) (prv ?H) SinkSources (map SourceLink as @ ?e # map SourceLink bs) SinkSources"
    using l1x by (simp add: dlist_def)
  from chain_alloc[OF this] have "?H ?e \<noteq> None" by simp
  with al5 obtain en5 where en5: "H5 ?e = Some en5" by auto
  with n5 have nul: "(next en5 = None \<and> prev en5 = None)
      \<or> (next en5 = Some ?e \<and> prev en5 = Some ?e)"
    by (simp add: nxt_def prv_def)
  have notin: "?e \<notin> set (SinkRemoved # map SourceLink ys)" using na by auto
  from dlist_append[OF l2' notin en5 nul] obtain H6 where
    ap: "list_append H5 SinkRemoved ?e = Inr H6"
    and l2'': "dlist H6 SinkRemoved (map SourceLink ys @ [?e])"
    and al6: "\<forall>p. H6 p \<noteq> None \<longleftrightarrow> H5 p \<noteq> None"
    and fr6: "\<forall>p. p \<notin> set (SinkRemoved # map SourceLink ys) \<and> p \<noteq> ?e \<longrightarrow>
                nxt H6 p = nxt H5 p \<and> prv H6 p = prv H5 p"
    by blast
  have fr6': "nxt H6 p = nxt H5 p \<and> prv H6 p = prv H5 p"
    if "p \<noteq> SinkRemoved" "p \<notin> SourceLink ` set ys" "p \<noteq> ?e" for p
    using fr6 that by auto
  have l1'': "dlist H6 SinkSources (map SourceLink (as @ bs))"
    by (rule dlist_frame[where H = H5]) (use l1' d xs na fr6' in auto)
  have fr: "nxt H6 (SourceLink b) = nxt ?H (SourceLink b)
      \<and> prv H6 (SourceLink b) = prv ?H (SourceLink b)" if "b \<notin> set xs \<union> set ys" for b
  proof -
    have "b \<noteq> a" using that a by auto
    with that fr5'[of "SourceLink b"] fr6'[of "SourceLink b"] show ?thesis by auto
  qed
  from r ap l1'' l2'' al5 al6 fr rm show ?thesis by auto
qed

lemma source_remove_active:
  assumes inv: "sink_inv st xs ys" and a: "a \<in> set xs" and s: "srcs st a = Some s"
  shows "\<exists>st'. source_remove st (Some a) = Inr st'
      \<and> sink_inv st' (remove1 a xs) (ys @ [a])
      \<and> srcs st' = (srcs st)(a \<mapsto> removed_source s)
      \<and> interest st' = interest (snd (epoll_ctl_del st (epollfd st) (fd s)))
      \<and> world st' =
          (if close_behavior s = SOURCE_CLOSE_FD_ON_REMOVE
           then snd (xclose (world (snd (epoll_ctl_del st (epollfd st) (fd s)))) (fd s))
           else world (snd (epoll_ctl_del st (epollfd st) (fd s))))
      \<and> calls st' = calls st \<and> epollfd st' = epollfd st"
proof -
  let ?st1 = "snd (epoll_ctl_del st (epollfd st) (fd s))"
  from inv have d: "distinct (xs @ ys)" and lo: "listed_ok (srcs st) xs ys"
    and lk: "links_ok (srcs st) (nodes st) xs ys"
    by (simp_all add: sink_inv_def)
  from lo a s have act: "is_active s" "sink s = Some ()" "2 \<le> refcount s"
    by (auto simp: listed_ok_def)
  from source_remove_lists[OF inv a] obtain H5 H6 where
    r: "list_remove (nodes st) (SourceLink a) = Inr H5"
    and ap: "list_append H5 SinkRemoved (SourceLink a) = Inr H6"
    and l1: "dlist H6 SinkSources (map SourceLink (remove1 a xs))"
    and l2: "dlist H6 SinkRemoved (map SourceLink (ys @ [a]))"
    and al: "\<forall>p. H6 p \<noteq> None \<longleftrightarrow> nodes st p \<noteq> None"
    and fr: "\<forall>b. b \<notin> set xs \<union> set ys \<longrightarrow>
             nxt H6 (SourceLink b) = nxt (nodes st) (SourceLink b)
             \<and> prv H6 (SourceLink b) = prv (nodes st) (SourceLink b)"
    by blast
  let ?S = "(srcs st)(a \<mapsto> removed_source s)"
  let ?st' = "?st1\<lparr>world := (if close_behavior s = SOURCE_CLOSE_FD_ON_REMOVE
                       then snd (xclose (world ?st1) (fd s)) else world ?st1),
             srcs := ?S, nodes := H6\<rparr>"
  have eq: "source_remove st (Some a) = Inr ?st'"
    by (rule source_remove_steps[OF s act r ap])
  have dis: "distinct (remove1 a xs @ ys @ [a])" using d a by auto
  have set_rm: "set (remove1 a xs) = set xs - {a}" using d by simp
  have inact: "\<not> is_active (removed_source s)" "1 \<le> refcount (removed_source s)"
    using act by (simp_all add: removed_source_def)
  have lo': "listed_ok ?S (remove1 a xs) (ys @ [a])"
    unfolding listed_ok_def
  proof (intro conjI ballI allI impI)
    fix b assume "b \<in> set (remove1 a xs)"
    then have "b \<in> set xs" "b \<noteq> a" using set_rm by auto
    then show "\<exists>s. ?S b = Some s \<and> is_active s \<and> sink s = Some () \<and> 2 \<le> refcount s"
      using lo by (auto simp: listed_ok_def)
  next
    fix b assume b: "b \<in> set (ys @ [a])"
    show "\<exists>s. ?S b = Some s \<and> \<not> is_active s \<and> 1 \<le> refcount s"
    proof (cases "b = a")
      case True
      then show ?thesis using inact by simp
    next
      case False
      with b have "b \<in> set ys" by simp
      with False show ?thesis using lo by (auto simp: listed_ok_def)
    qed
  next
    fix b s' assume b: "?S b = Some s' \<and> is_active s'"
    then have "b \<noteq> a" using inact by auto
    with b have "b \<in> set xs" using lo by (auto simp: listed_ok_def)
    with \<open>b \<noteq> a\<close> show "b \<in> set (remove1 a xs)" using set_rm by simp
  qed
  have lk': "links_ok ?S H6 (remove1 a xs) (ys @ [a])"
    unfolding links_ok_def
  proof (intro allI conjI impI)
    fix b
    have al': "(H6 p = None) = (nodes st p = None)" for p using al by (metis)
    have alloc: "(srcs st c = None) = (nodes st (SourceLink c) = None)" for c
      using lk by (simp add: links_ok_def)
    show "(?S b = None) = (H6 (SourceLink b) = None)"
      using alloc[of b] alloc[of a] al'[of "SourceLink b"] s by (cases "b = a") simp_all
    assume "?S b \<noteq> None \<and> b \<notin> set (remove1 a xs) \<union> set (ys @ [a])"
    then have b: "b \<noteq> a" "b \<notin> set xs \<union> set ys" "srcs st b \<noteq> None"
      using set_rm by auto
    then have "unlinked (nodes st) (SourceLink b)" using lk by (simp add: links_ok_def)
    moreover have "unlinked H6 (SourceLink b) = unlinked (nodes st) (SourceLink b)"
      by (rule unlinked_cong) (use fr b(2) in simp_all)
    ultimately show "unlinked H6 (SourceLink b)" by simp
  qed
  have "sink_inv ?st' (remove1 a xs) (ys @ [a])"
    using dis l1 l2 lo' lk' by (simp add: sink_inv_def)
  moreover have "epollfd ?st' = epollfd st" "calls ?st' = calls st"
    by (simp_all add: epoll_ctl_del_fields)
  ultimately show ?thesis using eq by (intro exI[of _ ?st']) simp
qed

lemma source_remove_inactive:
  assumes "srcs st a = Some s" "\<not> is_active s"
  shows "source_remove st (Some a) = Inr st"
  using assms by (simp add: source_remove_def)

lemma get_source_Inr_iff [simp]: "get_source st a = Inr s \<longleftrightarrow> srcs st a = Some s"
  by (simp add: get_source_def split: option.splits)

lemma update_source_Inr_iff:
  "update_source st a f = Inr st' \<longleftrightarrow>
     (\<exists>s. srcs st a = Some s \<and> st' = st\<lparr>srcs := (srcs st)(a \<mapsto> f s)\<rparr>)"
  by (auto simp: update_source_def split: option.splits)

lemma source_unref_Inr:
  assumes "source_unref st a = Inr st'" "srcs st a = Some s"
  shows "srcs st' a = None \<or> srcs st' a = Some (s\<lparr>refcount := refcount s - 1\<rparr>)"
  using assms
  by (auto simp: source_unref_def source_destroy_def Let_def split: if_splits prod.splits)

lemma source_remove_Inr_inactive:
  assumes "source_remove st (Some a) = Inr st'"
  shows "\<exists>s'. srcs st' a = Some s' \<and> \<not> is_active s'"
proof -
  from assms obtain s where s: "srcs st a = Some s"
    by (auto simp: source_remove_def bindr_Inr_iff)
  show ?thesis
  proof (cases "is_active s")
    case False
    with assms s show ?thesis by (simp add: source_remove_def)
  next
    case True
    obtain r1 st1 where d: "epoll_ctl_del st (epollfd st) (fd s) = (r1, st1)"
      by (cases "epoll_ctl_del st (epollfd st) (fd s)")
    have f: "srcs st1 = srcs st"
      using epoll_ctl_del_fields(1)[of st "epollfd st" "fd s"] d by simp
    from assms s True d obtain st2 st3 st4 H5 s5 H6 where
      st2: "(if close_behavior s = SOURCE_CLOSE_FD_ON_REMOVE
             then (case xclose (world st1) (fd s) of (r, w) \<Rightarrow>
                     update_source (st1\<lparr>world := w\<rparr>) a (\<lambda>s. s\<lparr>fd := r\<rparr>))
             else Inr st1) = Inr st2"
      and st3: "update_source st2 a (\<lambda>s. s\<lparr>is_active := False\<rparr>) = Inr st3"
      and st4: "source_unref st3 a = Inr st4"
      and s5: "srcs st4 a = Some s5"
      and fin: "update_source (st4\<lparr>nodes := H6\<rparr>) a (\<lambda>s. s\<lparr>sink := None\<rparr>) = Inr st'"
      by (auto simp: source_remove_def bindr_Inr_iff)
    from st3 obtain s2 where s3: "srcs st3 a = Some (s2\<lparr>is_active := False\<rparr>)"
      by (auto simp: update_source_Inr_iff)
    from source_unref_Inr[OF st4 s3] s5 have "\<not> is_active s5" by auto
    with fin s5 show ?thesis by (auto simp: update_source_Inr_iff)
  qed
qed

lemma source_remove_twice:
  "bindr (source_remove st src) (\<lambda>st'. source_remove st' src) = source_remove st src"
proof (cases src)
  case None
  then show ?thesis by (simp add: source_remove_def)
next
  case (Some a)
  show ?thesis
  proof (cases "source_remove st (Some a)")
    case (Inl e)
    with Some show ?thesis by simp
  next
    case (Inr st')
    from source_remove_Inr_inactive[OF Inr] obtain s' where
      "srcs st' a = Some s'" "\<not> is_active s'" by blast
    then have "source_remove st' (Some a) = Inr st'" by (rule source_remove_inactive)
    with Inr Some show ?thesis by simp
  qed
qed

lemma example_state_inv: "sink_inv (example_state cb) [0] []"
proof -
  have "dlist (nodes (example_state cb)) SinkSources (map SourceLink [0])"
    by (simp add: example_state_def dlist_def nxt_def prv_def)
  moreover have "dlist (nodes (example_state cb)) SinkRemoved (map SourceLink [])"
    by (simp add: example_state_def dlist_def nxt_def prv_def self_node_def)
  moreover have "listed_ok (srcs (example_state cb)) [0] []"
    by (simp add: example_state_def listed_ok_def)
  moreover have "links_ok (srcs (example_state cb)) (nodes (example_state cb)) [0] []"
    by (simp add: example_state_def links_ok_def)
  ultimately show ?thesis by (simp add: sink_inv_def)
qed

text \<open>
  Claim C6. \<^verbatim>\<open>source_remove\<close> on a null pointer or on a source that is not
  active returns with the state as it was. On an active source of a
  well-formed reactor it issues \<^verbatim>\<open>EPOLL_CTL_DEL\<close> for the descriptor, closes
  the descriptor and sets the field to -1 when the policy is close-on-remove,
  marks the source inactive, drops one reference, takes the source out of the
  sink's \<open>sources\<close> list and appends it to \<open>sources_removed\<close>, and clears
  the back-reference. Calling it twice is the same as calling it once.
\<close>

theorem source_remove_idempotent:
  "(src = None \<or> (\<exists>b s. src = Some b \<and> srcs st b = Some s \<and> \<not> is_active s) \<longrightarrow>
      source_remove st src = Inr st)
   \<and> (sink_inv st xs ys \<and> a \<in> set xs \<and> srcs st a = Some s \<longrightarrow>
      (\<exists>st'. source_remove st (Some a) = Inr st'
         \<and> sink_inv st' (remove1 a xs) (ys @ [a])
         \<and> srcs st' = (srcs st)(a \<mapsto> removed_source s)
         \<and> interest st' = interest (snd (epoll_ctl_del st (epollfd st) (fd s)))
         \<and> world st' =
             (if close_behavior s = SOURCE_CLOSE_FD_ON_REMOVE
              then snd (xclose (world (snd (epoll_ctl_del st (epollfd st) (fd s)))) (fd s))
              else world (snd (epoll_ctl_del st (epollfd st) (fd s))))))
   \<and> bindr (source_remove st src) (\<lambda>st'. source_remove st' src) = source_remove st src"
proof (intro conjI impI)
  assume "src = None \<or> (\<exists>b s. src = Some b \<and> srcs st b = Some s \<and> \<not> is_active s)"
  then show "source_remove st src = Inr st"
    by (auto simp: source_remove_def)
next
  assume h: "sink_inv st xs ys \<and> a \<in> set xs \<and> srcs st a = Some s"
  then have "sink_inv st xs ys" "a \<in> set xs" "srcs st a = Some s" by simp_all
  from source_remove_active[OF this]
  show "\<exists>st'. source_remove st (Some a) = Inr st'
         \<and> sink_inv st' (remove1 a xs) (ys @ [a])
         \<and> srcs st' = (srcs st)(a \<mapsto> removed_source s)
         \<and> interest st' = interest (snd (epoll_ctl_del st (epollfd st) (fd s)))
         \<and> world st' =
             (if close_behavior s = SOURCE_CLOSE_FD_ON_REMOVE
              then snd (xclose (world (snd (epoll_ctl_del st (epollfd st) (fd s)))) (fd s))
              else world (snd (epoll_ctl_del st (epollfd st) (fd s))))"
    by blast
next
  show "bindr (source_remove st src) (\<lambda>st'. source_remove st' src) = source_remove st src"
    by (rule source_remove_twice)
qed

theorem source_remove_idempotent_witness:
  "source_remove (example_state []) None = Inr (example_state [])
   \<and> (\<exists>st'. source_remove (example_state []) (Some 0) = Inr st'
         \<and> sink_inv st' [] [0]
         \<and> srcs st' 0 = Some \<lparr>refcount = 2, sink = None, dispatch = [],
                              close_behavior = SOURCE_CLOSE_FD_ON_REMOVE, fd = - 1,
                              is_active = False\<rparr>
         \<and> interest st' = []
         \<and> open_fds (world st') = [3, 0, 1, 2])
   \<and> bindr (source_remove (example_state []) (Some 0))
        (\<lambda>st'. source_remove st' (Some 0)) = source_remove (example_state []) (Some 0)"
proof -
  let ?s = "\<lparr>refcount = 3, sink = Some (), dispatch = [],
            close_behavior = SOURCE_CLOSE_FD_ON_REMOVE, fd = 5, is_active = True\<rparr>"
  note t = source_remove_idempotent[where st = "example_state []" and xs = "[0]" and ys = "[]"
      and a = 0 and s = ?s]
  have s: "srcs (example_state []) 0 = Some ?s" by (simp add: example_state_def)
  have e: "snd (epoll_ctl_del (example_state []) (epollfd (example_state [])) 5)
      = (example_state [])\<lparr>interest := []\<rparr>"
    by (simp add: example_state_def epoll_ctl_del_def)
  have w: "snd (xclose (world (example_state [])) 5)
      = \<lparr>open_fds = [3, 0, 1, 2], max_fds = 16, errno = EPERM\<rparr>"
    by (simp add: example_state_def xclose_def close_def)
  have 1: "source_remove (example_state []) None = Inr (example_state [])"
    using t[where src = None] by simp
  have "sink_inv (example_state []) [0] [] \<and> (0::nat) \<in> set [0]
      \<and> srcs (example_state []) 0 = Some ?s"
    using example_state_inv s by simp
  with t[where src = None] obtain st' where
    st': "source_remove (example_state []) (Some 0) = Inr st'"
      "sink_inv st' (remove1 0 [0]) ([] @ [0])"
      "srcs st' = (srcs (example_state []))(0 \<mapsto> removed_source ?s)"
      "interest st' = interest (snd (epoll_ctl_del (example_state [])
          (epollfd (example_state [])) (fd ?s)))"
      "world st' = snd (xclose (world (snd (epoll_ctl_del (example_state [])
          (epollfd (example_state [])) (fd ?s)))) (fd ?s))"
    by auto
  have 2: "\<exists>st'. source_remove (example_state []) (Some 0) = Inr st'
         \<and> sink_inv st' [] [0]
         \<and> srcs st' 0 = Some \<lparr>refcount = 2, sink = None, dispatch = [],
                              close_behavior = SOURCE_CLOSE_FD_ON_REMOVE, fd = - 1,
                              is_active = False\<rparr>
         \<and> interest st' = []
         \<and> open_fds (world st') = [3, 0, 1, 2]"
    using st' e w by (intro exI[of _ st']) (simp add: removed_source_def)
  have 3: "bindr (source_remove (example_state []) (Some 0))
        (\<lambda>st'. source_remove st' (Some 0)) = source_remove (example_state []) (Some 0)"
    using t[where src = "Some 0"] by simp
  from 1 2 3 show ?thesis by simp
qed

subsection \<open>Adding a source\<close>

lemma epoll_ctl_add_srcs:
  "epoll_ctl_add (st\<lparr>srcs := S\<rparr>) e d p =
     (fst (epoll_ctl_add st e d p), (snd (epoll_ctl_add st e d p))\<lparr>srcs := S\<rparr>)"
  by (simp add: epoll_ctl_add_def split: option.splits)

lemma epoll_ctl_add_fields:
  "srcs (snd (epoll_ctl_add st e d p)) = srcs st"
  "nodes (snd (epoll_ctl_add st e d p)) = nodes st"
  "epollfd (snd (epoll_ctl_add st e d p)) = epollfd st"
  "calls (snd (epoll_ctl_add st e d p)) = calls st"
  by (simp_all add: epoll_ctl_add_def split: option.splits)

lemma epoll_ctl_add_fail:
  assumes "fst (epoll_ctl_add st e d p) < 0"
  shows "interest (snd (epoll_ctl_add st e d p)) = interest st"
    "\<exists>w. snd (epoll_ctl_add st e d p) = st\<lparr>world := w\<rparr>"
  using assms by (auto simp: epoll_ctl_add_def split: option.splits if_splits)

lemma epoll_ctl_add_ok:
  assumes "\<not> fst (epoll_ctl_add st e d p) < 0"
  shows "epoll_ctl_add st e d p = (0, st\<lparr>interest := interest st @ [(d, p)]\<rparr>)"
  using assms by (auto simp: epoll_ctl_add_def split: option.splits if_splits)

lemma sink_add_source_fail:
  assumes s: "srcs st a = Some s" "1 \<le> refcount s" "refcount s + 1 < 2 ^ 32"
    and f: "fst (epoll_ctl_add st (epollfd st) (fd s) a) < 0"
  shows "sink_add_source st a =
     Inr (- errno_val (errno (world (snd (epoll_ctl_add st (epollfd st) (fd s) a)))),
          snd (epoll_ctl_add st (epollfd st) (fd s) a))"
proof -
  let ?S1 = "(srcs st)(a \<mapsto> s\<lparr>refcount := refcount s + 1\<rparr>)"
  let ?st1 = "st\<lparr>srcs := ?S1\<rparr>"
  let ?r = "fst (epoll_ctl_add st (epollfd st) (fd s) a)"
  let ?st2 = "snd (epoll_ctl_add st (epollfd st) (fd s) a)"
  have m: "(refcount s + 1) mod 2 ^ 32 = refcount s + 1" using s(3) by simp
  have r1: "source_ref st a = Inr ?st1" using s(1,2) m by (simp add: source_ref_ok)
  have e: "epoll_ctl_add ?st1 (epollfd ?st1) (fd (s\<lparr>refcount := refcount s + 1\<rparr>)) a
      = (?r, ?st2\<lparr>srcs := ?S1\<rparr>)"
    by (simp add: epoll_ctl_add_srcs)
  have u: "source_unref (?st2\<lparr>srcs := ?S1\<rparr>) a = Inr (?st2\<lparr>srcs := ?S1(a \<mapsto> s)\<rparr>)"
    using s(2) by (subst source_unref_keep[where s = "s\<lparr>refcount := refcount s + 1\<rparr>"]) simp_all
  have same: "?S1(a \<mapsto> s) = srcs ?st2" using s(1) by (simp add: epoll_ctl_add_fields fun_upd_idem)
  show ?thesis
    unfolding sink_add_source_def
    using r1 e u f same by (simp add: xerrno_def Let_def errno_val_pos)
qed

lemma sink_add_source_steps:
  assumes s: "srcs st a = Some s" "1 \<le> refcount s" "refcount s + 2 < 2 ^ 32"
    and ok: "\<not> fst (epoll_ctl_add st (epollfd st) (fd s) a) < 0"
    and ap: "list_append (nodes st) SinkSources (SourceLink a) = Inr H6"
  shows "sink_add_source st a =
     Inr (0, st\<lparr>srcs := (srcs st)(a \<mapsto> added_source s),
               interest := interest st @ [(fd s, a)],
               nodes := H6\<rparr>)"
proof -
  let ?S1 = "(srcs st)(a \<mapsto> s\<lparr>refcount := refcount s + 1\<rparr>)"
  let ?st1 = "st\<lparr>srcs := ?S1\<rparr>"
  have m: "(refcount s + 1) mod 2 ^ 32 = refcount s + 1"
    "(refcount s + 1 + 1) mod 2 ^ 32 = refcount s + 2" using s(3) by simp_all
  have r1: "source_ref st a = Inr ?st1" using s(1,2) m by (simp add: source_ref_ok)
  have e: "epoll_ctl_add ?st1 (epollfd ?st1) (fd (s\<lparr>refcount := refcount s + 1\<rparr>)) a
      = (0, st\<lparr>interest := interest st @ [(fd s, a)], srcs := ?S1\<rparr>)"
    using epoll_ctl_add_ok[OF ok] by (simp add: epoll_ctl_add_srcs)
  let ?st4 = "st\<lparr>interest := interest st @ [(fd s, a)],
      srcs := (srcs st)(a \<mapsto> s\<lparr>refcount := refcount s + 1, is_active := True,
                               sink := Some ()\<rparr>)\<rparr>"
  have r2: "source_ref ?st4 a =
      Inr (?st4\<lparr>srcs := (srcs ?st4)(a \<mapsto> added_source s)\<rparr>)"
    using m(2) by (subst source_ref_ok[where s = "s\<lparr>refcount := refcount s + 1,
        is_active := True, sink := Some ()\<rparr>"]) (simp_all add: added_source_def)
  show ?thesis
    unfolding sink_add_source_def
    using r1 e r2 ap by (simp add: xerrno_def Let_def)
qed

lemma sink_add_source_ok:
  assumes inv: "sink_inv st xs ys" and a: "a \<notin> set xs \<union> set ys"
    and s: "srcs st a = Some s" "1 \<le> refcount s" "refcount s + 2 < 2 ^ 32"
    and ok: "\<not> fst (epoll_ctl_add st (epollfd st) (fd s) a) < 0"
  shows "\<exists>st'. sink_add_source st a = Inr (0, st')
      \<and> sink_inv st' (xs @ [a]) ys
      \<and> srcs st' = (srcs st)(a \<mapsto> added_source s)
      \<and> interest st' = interest st @ [(fd s, a)]
      \<and> world st' = world st"
proof -
  let ?H = "nodes st" and ?e = "SourceLink a"
  from inv have d: "distinct (xs @ ys)"
    and l1: "dlist ?H SinkSources (map SourceLink xs)"
    and l2: "dlist ?H SinkRemoved (map SourceLink ys)"
    and lo: "listed_ok (srcs st) xs ys"
    and lk: "links_ok (srcs st) ?H xs ys"
    by (simp_all add: sink_inv_def)
  have alloc: "(srcs st c = None) = (?H (SourceLink c) = None)" for c
    using lk by (simp add: links_ok_def)
  from alloc[of a] s(1) obtain en where en: "?H ?e = Some en" by auto
  have "unlinked ?H ?e" using lk s(1) a by (simp add: links_ok_def)
  with en have nul: "(next en = None \<and> prev en = None)
      \<or> (next en = Some ?e \<and> prev en = Some ?e)"
    by (simp add: unlinked_def nxt_def prv_def)
  have notin: "?e \<notin> set (SinkSources # map SourceLink xs)" using a by auto
  from dlist_append[OF l1 notin en nul] obtain H6 where
    ap: "list_append ?H SinkSources ?e = Inr H6"
    and l1': "dlist H6 SinkSources (map SourceLink xs @ [?e])"
    and al6: "\<forall>p. H6 p \<noteq> None \<longleftrightarrow> ?H p \<noteq> None"
    and fr6: "\<forall>p. p \<notin> set (SinkSources # map SourceLink xs) \<and> p \<noteq> ?e \<longrightarrow>
                nxt H6 p = nxt ?H p \<and> prv H6 p = prv ?H p"
    by blast
  have l2': "dlist H6 SinkRemoved (map SourceLink ys)"
    by (rule dlist_frame[OF l2]) (use d a fr6 in auto)
  let ?s' = "added_source s"
  let ?S = "(srcs st)(a \<mapsto> ?s')"
  let ?st' = "st\<lparr>srcs := ?S, interest := interest st @ [(fd s, a)], nodes := H6\<rparr>"
  have eq: "sink_add_source st a = Inr (0, ?st')"
    by (rule sink_add_source_steps[OF s ok ap])
  have lo': "listed_ok ?S (xs @ [a]) ys"
    using lo a unfolding listed_ok_def by (auto simp: added_source_def)
  have al': "(H6 p = None) = (?H p = None)" for p using al6 by metis
  have lk': "links_ok ?S H6 (xs @ [a]) ys"
    unfolding links_ok_def
  proof (intro allI conjI impI)
    fix b
    show "(?S b = None) = (H6 (SourceLink b) = None)"
      using alloc[of b] alloc[of a] al'[of "SourceLink b"] s(1) by (cases "b = a") simp_all
    assume "?S b \<noteq> None \<and> b \<notin> set (xs @ [a]) \<union> set ys"
    then have b: "b \<noteq> a" "b \<notin> set xs \<union> set ys" "srcs st b \<noteq> None" by auto
    then have "unlinked ?H (SourceLink b)" using lk by (simp add: links_ok_def)
    moreover have "unlinked H6 (SourceLink b) = unlinked ?H (SourceLink b)"
      by (rule unlinked_cong) (use fr6 b in auto)
    ultimately show "unlinked H6 (SourceLink b)" by simp
  qed
  have "sink_inv ?st' (xs @ [a]) ys"
    using d a l1' l2' lo' lk' by (simp add: sink_inv_def)
  then show ?thesis using eq by (intro exI[of _ ?st']) simp
qed

lemma example_state2_inv: "sink_inv (example_state2 d) [0] []"
proof -
  have "dlist (nodes (example_state2 d)) SinkSources (map SourceLink [0])"
    by (simp add: example_state2_def example_state_def dlist_def nxt_def prv_def)
  moreover have "dlist (nodes (example_state2 d)) SinkRemoved (map SourceLink [])"
    by (simp add: example_state2_def example_state_def dlist_def nxt_def prv_def self_node_def)
  moreover have "listed_ok (srcs (example_state2 d)) [0] []"
    by (simp add: example_state2_def example_state_def listed_ok_def)
  moreover have "links_ok (srcs (example_state2 d)) (nodes (example_state2 d)) [0] []"
    by (simp add: example_state2_def example_state_def links_ok_def unlinked_def nxt_def
        prv_def self_node_def)
  ultimately show ?thesis by (simp add: sink_inv_def)
qed

text \<open>
  What \<^verbatim>\<open>sink_add_source\<close> does establish. When the registration with the
  multiplexer fails, it returns the negative error code, and the reference
  taken for the registration is dropped again: the sources (counters, active
  flags, back-references), the list nodes and the interest list are as before
  the call. When the registration succeeds on a source that is in neither list
  of a well-formed reactor, the call returns 0, the source is active, points
  back to the sink, carries two more references and is the last element of the
  sink's \<open>sources\<close> list, and its descriptor is registered.
\<close>

theorem sink_add_source_atomic:
  "(srcs st a = Some s \<and> 1 \<le> refcount s \<and> refcount s + 1 < 2 ^ 32
      \<and> fst (epoll_ctl_add st (epollfd st) (fd s) a) < 0 \<longrightarrow>
      (\<exists>rc st'. sink_add_source st a = Inr (rc, st') \<and> rc < 0
         \<and> rc = - errno_val (errno (world st'))
         \<and> srcs st' = srcs st \<and> nodes st' = nodes st \<and> interest st' = interest st))
   \<and> (sink_inv st xs ys \<and> a \<notin> set xs \<union> set ys \<and> srcs st a = Some s
      \<and> 1 \<le> refcount s \<and> refcount s + 2 < 2 ^ 32
      \<and> \<not> fst (epoll_ctl_add st (epollfd st) (fd s) a) < 0 \<longrightarrow>
      (\<exists>st'. sink_add_source st a = Inr (0, st')
         \<and> sink_inv st' (xs @ [a]) ys
         \<and> srcs st' = (srcs st)(a \<mapsto> added_source s)
         \<and> interest st' = interest st @ [(fd s, a)]))"
proof (intro conjI impI)
  assume h: "srcs st a = Some s \<and> 1 \<le> refcount s \<and> refcount s + 1 < 2 ^ 32
      \<and> fst (epoll_ctl_add st (epollfd st) (fd s) a) < 0"
  let ?st' = "snd (epoll_ctl_add st (epollfd st) (fd s) a)"
  from h have eq: "sink_add_source st a = Inr (- errno_val (errno (world ?st')), ?st')"
    by (intro sink_add_source_fail) simp_all
  moreover have "- errno_val (errno (world ?st')) < 0" using errno_val_pos by simp
  moreover have "srcs ?st' = srcs st" "nodes ?st' = nodes st"
    by (simp_all add: epoll_ctl_add_fields)
  moreover have "interest ?st' = interest st" using h by (intro epoll_ctl_add_fail) simp
  ultimately show "\<exists>rc st'. sink_add_source st a = Inr (rc, st') \<and> rc < 0
         \<and> rc = - errno_val (errno (world st'))
         \<and> srcs st' = srcs st \<and> nodes st' = nodes st \<and> interest st' = interest st"
    by blast
next
  assume h: "sink_inv st xs ys \<and> a \<notin> set xs \<union> set ys \<and> srcs st a = Some s
      \<and> 1 \<le> refcount s \<and> refcount s + 2 < 2 ^ 32
      \<and> \<not> fst (epoll_ctl_add st (epollfd st) (fd s) a) < 0"
  then have "sink_inv st xs ys" "a \<notin> set xs \<union> set ys" "srcs st a = Some s"
    "1 \<le> refcount s" "refcount s + 2 < 2 ^ 32"
    "\<not> fst (epoll_ctl_add st (epollfd st) (fd s) a) < 0" by simp_all
  from sink_add_source_ok[OF this]
  show "\<exists>st'. sink_add_source st a = Inr (0, st')
         \<and> sink_inv st' (xs @ [a]) ys
         \<and> srcs st' = (srcs st)(a \<mapsto> added_source s)
         \<and> interest st' = interest st @ [(fd s, a)]"
    by blast
qed

theorem sink_add_source_atomic_witness:
  "(\<exists>st'. sink_add_source (example_state2 5) 1 = Inr (- 17, st')
       \<and> srcs st' = srcs (example_state2 5) \<and> nodes st' = nodes (example_state2 5)
       \<and> interest st' = [(5, 0)])
   \<and> (\<exists>st'. sink_add_source (example_state2 2) 1 = Inr (0, st')
       \<and> sink_inv st' [0, 1] []
       \<and> srcs st' 1 = Some \<lparr>refcount = 3, sink = Some (), dispatch = [],
                            close_behavior = SOURCE_CLOSE_FD_ON_REMOVE, fd = 2,
                            is_active = True\<rparr>
       \<and> interest st' = [(5, 0), (2, 1)])"
proof -
  let ?s5 = "\<lparr>refcount = 1, sink = None, dispatch = [],
      close_behavior = SOURCE_CLOSE_FD_ON_REMOVE, fd = 5, is_active = False\<rparr>"
  let ?s2 = "\<lparr>refcount = 1, sink = None, dispatch = [],
      close_behavior = SOURCE_CLOSE_FD_ON_REMOVE, fd = 2, is_active = False\<rparr>"
  note t5 = sink_add_source_atomic[where st = "example_state2 5" and a = 1 and s = ?s5
      and xs = "[0]" and ys = "[]"]
  note t2 = sink_add_source_atomic[where st = "example_state2 2" and a = 1 and s = ?s2
      and xs = "[0]" and ys = "[]"]
  have e5: "epoll_ctl_add (example_state2 5) (epollfd (example_state2 5)) 5 1 =
      (- 1, (example_state2 5)\<lparr>world := (world (example_state2 5))\<lparr>errno := EEXIST\<rparr>\<rparr>)"
    by (simp add: epoll_ctl_add_def example_state2_def example_state_def)
  have e2: "fst (epoll_ctl_add (example_state2 2) (epollfd (example_state2 2)) 2 1) = 0"
    by (simp add: epoll_ctl_add_def example_state2_def example_state_def)
  have h5: "srcs (example_state2 5) 1 = Some ?s5 \<and> 1 \<le> refcount ?s5
      \<and> refcount ?s5 + 1 < 2 ^ 32
      \<and> fst (epoll_ctl_add (example_state2 5) (epollfd (example_state2 5)) (fd ?s5) 1) < 0"
    using e5 by (simp add: example_state2_def)
  with t5 obtain rc st' where
    r: "sink_add_source (example_state2 5) 1 = Inr (rc, st')" "rc = - errno_val (errno (world st'))"
      "srcs st' = srcs (example_state2 5)" "nodes st' = nodes (example_state2 5)"
      "interest st' = interest (example_state2 5)"
    by blast
  have "sink_add_source (example_state2 5) 1 =
      Inr (- errno_val (errno (world (snd (epoll_ctl_add (example_state2 5)
              (epollfd (example_state2 5)) (fd ?s5) 1)))),
           snd (epoll_ctl_add (example_state2 5) (epollfd (example_state2 5)) (fd ?s5) 1))"
    using h5 by (intro sink_add_source_fail) simp_all
  with r(1) e5 have "errno (world st') = EEXIST" by simp
  with r have 1: "\<exists>st'. sink_add_source (example_state2 5) 1 = Inr (- 17, st')
       \<and> srcs st' = srcs (example_state2 5) \<and> nodes st' = nodes (example_state2 5)
       \<and> interest st' = [(5, 0)]"
    by (intro exI[of _ st']) (simp add: example_state2_def example_state_def)
  have h2: "sink_inv (example_state2 2) [0] [] \<and> 1 \<notin> set [0] \<union> set ([] :: nat list)
      \<and> srcs (example_state2 2) 1 = Some ?s2
      \<and> 1 \<le> refcount ?s2 \<and> refcount ?s2 + 2 < 2 ^ 32
      \<and> \<not> fst (epoll_ctl_add (example_state2 2) (epollfd (example_state2 2)) (fd ?s2) 1) < 0"
    using e2 example_state2_inv by (simp add: example_state2_def)
  with t2 obtain st2 where
    "sink_add_source (example_state2 2) 1 = Inr (0, st2)" "sink_inv st2 ([0] @ [1]) []"
    "srcs st2 = (srcs (example_state2 2))(1 \<mapsto> added_source ?s2)"
    "interest st2 = interest (example_state2 2) @ [(fd ?s2, 1)]"
    by blast
  then have 2: "\<exists>st'. sink_add_source (example_state2 2) 1 = Inr (0, st')
       \<and> sink_inv st' [0, 1] []
       \<and> srcs st' 1 = Some \<lparr>refcount = 3, sink = Some (), dispatch = [],
                            close_behavior = SOURCE_CLOSE_FD_ON_REMOVE, fd = 2,
                            is_active = True\<rparr>
       \<and> interest st' = [(5, 0), (2, 1)]"
    by (intro exI[of _ st2]) (simp add: added_source_def example_state2_def example_state_def)
  from 1 2 show ?thesis by simp
qed

lemma pending_state_inv: "sink_inv pending_state [] [0]"
proof -
  have "dlist (nodes pending_state) SinkSources (map SourceLink [])"
    by (simp add: pending_state_def dlist_def nxt_def prv_def self_node_def)
  moreover have "dlist (nodes pending_state) SinkRemoved (map SourceLink [0])"
    by (simp add: pending_state_def dlist_def nxt_def prv_def)
  moreover have "listed_ok (srcs pending_state) [] [0]"
    by (simp add: pending_state_def listed_ok_def)
  moreover have "links_ok (srcs pending_state) (nodes pending_state) [] [0]"
    by (simp add: pending_state_def links_ok_def)
  ultimately show ?thesis by (simp add: sink_inv_def)
qed

lemma pending_state_reached:
  "bindr (source_never_close_fd (example_state []) 0) (\<lambda>st. source_remove st (Some 0))
     = Inr pending_state"
  by (simp add: source_never_close_fd_def example_state_def get_source_def source_remove_def
      epoll_ctl_del_def pending_state_def
      xclose_def close_def update_source_def source_unref_def source_destroy_def
      list_remove_def list_append_def list_insert_def Let_def elm_unused_def list_empty_def
      set_next_def set_prev_def get_node_def self_node_def fun_eq_iff)

text \<open>
  Claim C9 says that \<^verbatim>\<open>sink_add_source\<close> makes the source active whenever the
  registration succeeds. The header says of \<^verbatim>\<open>source_remove\<close> that a source may
  be re-added to a sink later, and \<^verbatim>\<open>test_source_readd\<close> removes and re-adds
  without a dispatch in between. For a source whose descriptor stays open
  over \<^verbatim>\<open>source_remove\<close> this fails: in \<open>pending_state\<close> the source is still
  linked into the \<open>sources_removed\<close> list, the registration of descriptor 5
  succeeds, and the assertion of \<^verbatim>\<open>list_append\<close> on the element ends the call.
\<close>

theorem sink_add_source_pending_aborts:
  "bindr (source_never_close_fd (example_state []) 0) (\<lambda>st. source_remove st (Some 0))
     = Inr pending_state
   \<and> fst (epoll_ctl_add pending_state (epollfd pending_state) 5 0) = 0
   \<and> sink_add_source pending_state 0 = Inl Assertion"
proof -
  have "fst (epoll_ctl_add pending_state (epollfd pending_state) 5 0) = 0"
    by (simp add: epoll_ctl_add_def pending_state_def)
  moreover have "sink_add_source pending_state 0 = Inl Assertion"
    by (simp add: sink_add_source_def source_ref_def pending_state_def epoll_ctl_add_def
        xerrno_def update_source_def list_append_def elm_unused_def list_empty_def Let_def
        get_node_def get_source_def)
  ultimately show ?thesis using pending_state_reached by simp
qed

theorem sink_add_source_pending_aborts_witness:
  "sink_add_source pending_state 0 = Inl Assertion
   \<and> 5 \<in> set (open_fds (world pending_state))
   \<and> 5 \<notin> fst ` set (interest pending_state)
   \<and> map_option refcount (srcs pending_state 0) = Some 2
   \<and> nxt (nodes pending_state) (SourceLink 0) = Some SinkRemoved
   \<and> prv (nodes pending_state) (SourceLink 0) = Some SinkRemoved"
  using sink_add_source_pending_aborts by (simp add: pending_state_def nxt_def prv_def)

subsection \<open>The dispatch pass\<close>

lemma same_sources_refl: "same_sources st st"
  by (simp add: same_sources_def)

lemma same_sources_trans:
  "same_sources st st1 \<Longrightarrow> same_sources st1 st2 \<Longrightarrow> same_sources st st2"
  by (simp add: same_sources_def)

lemma same_sources_upd:
  assumes "srcs st a = Some s" "dispatch s' = dispatch s" "srcs st' = (srcs st)(a \<mapsto> s')"
  shows "same_sources st st'"
  using assms by (simp add: same_sources_def)

lemma same_sources_env:
  "srcs st' = srcs st \<Longrightarrow> same_sources st st'"
  by (simp add: same_sources_def)

lemma same_sources_alloc:
  "same_sources st st' \<Longrightarrow> (srcs st' b = None) = (srcs st b = None)"
  unfolding same_sources_def by (metis option.map_disc_iff)

lemma same_sources_dispatch:
  "same_sources st st' \<Longrightarrow> srcs st b = Some s \<Longrightarrow> \<exists>s'. srcs st' b = Some s' \<and> dispatch s' = dispatch s"
  unfolding same_sources_def by (metis option.simps(9) map_option_eq_Some)

lemma moved_refl: "moved xs ys xs ys"
  by (simp add: moved_def)

lemma moved_trans:
  "moved xs ys xs1 ys1 \<Longrightarrow> moved xs1 ys1 xs2 ys2 \<Longrightarrow> moved xs ys xs2 ys2"
  unfolding moved_def using prefix_order.order_trans[of ys ys1 ys2] by auto

lemma moved_remove:
  "a \<in> set xs \<Longrightarrow> distinct xs \<Longrightarrow> moved xs ys (remove1 a xs) (ys @ [a])"
  by (auto simp: moved_def)

lemma callbacks_ok_suffix:
  assumes "callbacks_ok st (as @ bs)"
  shows "callbacks_ok st bs"
  unfolding callbacks_ok_def
proof (intro conjI ballI allI)
  fix x assume "x \<in> set bs"
  then show "srcs st (target x) \<noteq> None" using assms by (simp add: callbacks_ok_def)
next
  fix a
  show "case srcs st a of None \<Rightarrow> True
        | Some s \<Rightarrow> held s + count_list bs (CallUnref a) \<le> refcount s
                   \<and> refcount s + count_list bs (CallRef a) < 2 ^ 32"
  proof (cases "srcs st a")
    case None
    then show ?thesis by simp
  next
    case (Some s)
    with assms have "held s + count_list (as @ bs) (CallUnref a) \<le> refcount s"
      "refcount s + count_list (as @ bs) (CallRef a) < 2 ^ 32"
      unfolding callbacks_ok_def by (auto dest: spec[of _ a])
    with Some show ?thesis by simp
  qed
qed

lemma callbacks_ok_env:
  "srcs st' = srcs st \<Longrightarrow> callbacks_ok st' script = callbacks_ok st script"
  by (simp add: callbacks_ok_def)

lemma callbacks_okD:
  assumes "callbacks_ok st script" "srcs st a = Some s"
  shows "held s + count_list script (CallUnref a) \<le> refcount s"
    "refcount s + count_list script (CallRef a) < 2 ^ 32"
  using assms unfolding callbacks_ok_def by (auto dest: spec[of _ a])

lemma callbacks_ok_step:
  assumes ok: "callbacks_ok st (x # script)" and s: "srcs st a = Some s"
    and st': "srcs st' = (srcs st)(a \<mapsto> s')"
    and h: "held s' + count_list script (CallUnref a) \<le> refcount s'"
      "refcount s' + count_list script (CallRef a) < 2 ^ 32"
  shows "callbacks_ok st' script"
  unfolding callbacks_ok_def
proof (intro conjI ballI allI)
  fix y assume "y \<in> set script"
  then have "srcs st (target y) \<noteq> None" using ok by (simp add: callbacks_ok_def)
  then show "srcs st' (target y) \<noteq> None" using st' by simp
next
  fix b
  have tl: "callbacks_ok st script" using callbacks_ok_suffix[of st "[x]" script] ok by simp
  show "case srcs st' b of None \<Rightarrow> True
        | Some s \<Rightarrow> held s + count_list script (CallUnref b) \<le> refcount s
                   \<and> refcount s + count_list script (CallRef b) < 2 ^ 32"
  proof (cases "b = a")
    case True
    then show ?thesis using st' h by simp
  next
    case False
    then have e: "srcs st' b = srcs st b" using st' by simp
    show ?thesis
    proof (cases "srcs st b")
      case None
      then show ?thesis using e by simp
    next
      case (Some sb)
      with callbacks_okD[OF tl Some] e show ?thesis by simp
    qed
  qed
qed

lemma held_removed: "held (removed_source s) = 1"
  by (simp add: held_def removed_source_def)

lemma do_action_ok:
  assumes inv: "sink_inv st xs ys" and ok: "callbacks_ok st (x # script)"
  shows "\<exists>st' xs' ys'. do_action st x = Inr st' \<and> sink_inv st' xs' ys'
      \<and> callbacks_ok st' script \<and> same_sources st st' \<and> moved xs ys xs' ys'
      \<and> calls st' = calls st"
proof -
  from ok obtain s where s: "srcs st (target x) = Some s"
    by (auto simp: callbacks_ok_def)
  note lim = callbacks_okD[OF ok s]
  from inv have lo: "listed_ok (srcs st) xs ys" and d: "distinct (xs @ ys)"
    by (simp_all add: sink_inv_def)
  have tl: "callbacks_ok st script" using callbacks_ok_suffix[of st "[x]" script] ok by simp
  show ?thesis
  proof (cases x)
    case (CallUnref a)
    with s have sa: "srcs st a = Some s" by simp
    from lim CallUnref have rc: "held s + 1 + count_list script (CallUnref a) \<le> refcount s"
      "refcount s + count_list script (CallRef a) < 2 ^ 32" by simp_all
    then have two: "2 \<le> refcount s" by (simp add: held_def split: if_splits)
    let ?s' = "s\<lparr>refcount := refcount s - 1\<rparr>"
    let ?st' = "st\<lparr>srcs := (srcs st)(a \<mapsto> ?s')\<rparr>"
    have eq: "do_action st x = Inr ?st'"
      using CallUnref source_unref_keep[OF sa two] by simp
    have act: "a \<in> set xs \<Longrightarrow> is_active s" using lo sa by (auto simp: listed_ok_def)
    have inv': "sink_inv ?st' xs ys"
      by (rule sink_inv_srcs_upd[OF inv sa]) (use rc act in \<open>auto simp: held_def split: if_splits\<close>)
    have ok': "callbacks_ok ?st' script"
      by (rule callbacks_ok_step[OF ok sa, where s' = ?s'])
        (use rc in \<open>auto simp: held_def split: if_splits\<close>)
    have "same_sources st ?st'" by (rule same_sources_upd[OF sa]) simp_all
    with eq inv' ok' show ?thesis using moved_refl by (intro exI[of _ ?st'] exI[of _ xs] exI[of _ ys]) simp
  next
    case (CallRef a)
    with s have sa: "srcs st a = Some s" by simp
    from lim CallRef have rc: "held s + count_list script (CallUnref a) \<le> refcount s"
      "refcount s + 1 + count_list script (CallRef a) < 2 ^ 32" by simp_all
    then have one: "1 \<le> refcount s" by (simp add: held_def split: if_splits)
    have m: "(refcount s + 1) mod 2 ^ 32 = refcount s + 1" using rc(2) by simp
    let ?s' = "s\<lparr>refcount := refcount s + 1\<rparr>"
    let ?st' = "st\<lparr>srcs := (srcs st)(a \<mapsto> ?s')\<rparr>"
    have eq: "do_action st x = Inr ?st'"
      using CallRef source_ref_ok[OF sa one] m by simp
    have lb: "a \<in> set xs \<Longrightarrow> 2 \<le> refcount s" using lo sa by (auto simp: listed_ok_def)
    have inv': "sink_inv ?st' xs ys"
      by (rule sink_inv_srcs_upd[OF inv sa]) (use one lb in auto)
    have ok': "callbacks_ok ?st' script"
      by (rule callbacks_ok_step[OF ok sa, where s' = ?s'])
        (use rc in \<open>auto simp: held_def split: if_splits\<close>)
    have "same_sources st ?st'" by (rule same_sources_upd[OF sa]) simp_all
    with eq inv' ok' show ?thesis using moved_refl by (intro exI[of _ ?st'] exI[of _ xs] exI[of _ ys]) simp
  next
    case (CallRemove a)
    with s have sa: "srcs st a = Some s" by simp
    show ?thesis
    proof (cases "is_active s")
      case False
      then have "do_action st x = Inr st" using CallRemove sa by (simp add: source_remove_inactive)
      then show ?thesis using inv tl same_sources_refl moved_refl
        by (intro exI[of _ st] exI[of _ xs] exI[of _ ys]) simp
    next
      case True
      then have ax: "a \<in> set xs" using lo sa by (auto simp: listed_ok_def)
      from source_remove_active[OF inv ax sa] obtain st' where
        r: "source_remove st (Some a) = Inr st'"
        and inv': "sink_inv st' (remove1 a xs) (ys @ [a])"
        and S': "srcs st' = (srcs st)(a \<mapsto> removed_source s)"
        and c: "calls st' = calls st"
        by blast
      from lim CallRemove True have rc: "2 + count_list script (CallUnref a) \<le> refcount s"
        "refcount s + count_list script (CallRef a) < 2 ^ 32" by (simp_all add: held_def)
      have ok': "callbacks_ok st' script"
        by (rule callbacks_ok_step[OF ok sa S'])
          (use rc in \<open>simp_all add: held_removed, simp_all add: removed_source_def\<close>)
      have ss: "same_sources st st'"
        by (rule same_sources_upd[OF sa _ S']) (simp add: removed_source_def)
      have mv: "moved xs ys (remove1 a xs) (ys @ [a])"
        by (rule moved_remove[OF ax]) (use d in simp)
      from r inv' ok' ss mv c CallRemove show ?thesis
        by (intro exI[of _ st'] exI[of _ "remove1 a xs"] exI[of _ "ys @ [a]"]) simp
    qed
  qed
qed

lemma run_callback_ok:
  assumes "sink_inv st xs ys" "callbacks_ok st (cb @ script)"
  shows "\<exists>st' xs' ys'. run_callback st cb = Inr st' \<and> sink_inv st' xs' ys'
      \<and> callbacks_ok st' script \<and> same_sources st st' \<and> moved xs ys xs' ys'
      \<and> calls st' = calls st"
  using assms
proof (induction cb arbitrary: st xs ys)
  case Nil
  then show ?case using same_sources_refl moved_refl
    by (intro exI[of _ st] exI[of _ xs] exI[of _ ys]) simp
next
  case (Cons x cb)
  from do_action_ok[OF Cons.prems(1), of x "cb @ script"] Cons.prems(2)
  obtain st1 xs1 ys1 where 1: "do_action st x = Inr st1" "sink_inv st1 xs1 ys1"
    "callbacks_ok st1 (cb @ script)" "same_sources st st1" "moved xs ys xs1 ys1"
    "calls st1 = calls st" by auto
  from Cons.IH[OF 1(2,3)] obtain st2 xs2 ys2 where 2: "run_callback st1 cb = Inr st2"
    "sink_inv st2 xs2 ys2" "callbacks_ok st2 script" "same_sources st1 st2"
    "moved xs1 ys1 xs2 ys2" "calls st2 = calls st1" by blast
  from 1 2 same_sources_trans[OF 1(4) 2(4)] moved_trans[OF 1(5) 2(5)] show ?case
    by (intro exI[of _ st2] exI[of _ xs2] exI[of _ ys2]) simp
qed

lemma pass_script_same:
  assumes "same_sources st st'"
  shows "pass_script st' ep = pass_script st ep"
proof -
  have "(case srcs st' p of None \<Rightarrow> [] | Some s \<Rightarrow> dispatch s)
      = (case srcs st p of None \<Rightarrow> [] | Some s \<Rightarrow> dispatch s)" for p
    using assms[unfolded same_sources_def, rule_format, of p]
    by (cases "srcs st p"; cases "srcs st' p") simp_all
  then show ?thesis by (simp add: pass_script_def)
qed

lemma dispatch_events_ok:
  assumes "sink_inv st xs ys" "callbacks_ok st (pass_script st ep)"
    "\<forall>p \<in> set ep. srcs st p \<noteq> None"
  shows "\<exists>st' xs' ys'. dispatch_events st ep = Inr st' \<and> sink_inv st' xs' ys'
      \<and> same_sources st st' \<and> moved xs ys xs' ys'"
  using assms
proof (induction ep arbitrary: st xs ys)
  case Nil
  have "dispatch_events st [] = Inr st" by simp
  with Nil(1) same_sources_refl[of st] moved_refl[of xs ys] show ?case by blast
next
  case (Cons p ps)
  from Cons.prems(3) obtain s where s: "srcs st p = Some s" by auto
  have al: "\<forall>q \<in> set ps. srcs st q \<noteq> None" using Cons.prems(3) by simp
  have ps: "pass_script st (p # ps) = dispatch s @ pass_script st ps"
    using s by (simp add: pass_script_def)
  show ?case
  proof (cases "fd s = - 1")
    case True
    have "callbacks_ok st (pass_script st ps)"
      using Cons.prems(2) ps callbacks_ok_suffix by simp
    from Cons.IH[OF Cons.prems(1) this al]
    obtain st' xs' ys' where r: "dispatch_events st ps = Inr st'" "sink_inv st' xs' ys'"
      "same_sources st st'" "moved xs ys xs' ys'" by blast
    have "dispatch_events st (p # ps) = dispatch_events st ps" using s True by simp
    with r show ?thesis by metis
  next
    case False
    let ?st0 = "st\<lparr>calls := calls st @ [p]\<rparr>"
    have i0: "sink_inv ?st0 xs ys" using Cons.prems(1) by (simp add: sink_inv_env)
    have c0: "callbacks_ok ?st0 (dispatch s @ pass_script st ps)"
      using Cons.prems(2) ps callbacks_ok_env[of ?st0 st] by simp
    from run_callback_ok[OF i0 c0] obtain st1 xs1 ys1 where
      1: "run_callback ?st0 (dispatch s) = Inr st1" "sink_inv st1 xs1 ys1"
      "callbacks_ok st1 (pass_script st ps)" "same_sources ?st0 st1" "moved xs ys xs1 ys1"
      by blast
    have "same_sources st ?st0" by (rule same_sources_env) simp
    then have ss: "same_sources st st1" using 1(4) by (rule same_sources_trans)
    have c1: "callbacks_ok st1 (pass_script st1 ps)"
      using 1(3) pass_script_same[OF ss] by simp
    have a1: "\<forall>q \<in> set ps. srcs st1 q \<noteq> None"
      using al same_sources_alloc[OF ss] by simp
    from Cons.IH[OF 1(2) c1 a1] obtain st2 xs2 ys2 where
      2: "dispatch_events st1 ps = Inr st2" "sink_inv st2 xs2 ys2"
      "same_sources st1 st2" "moved xs1 ys1 xs2 ys2" by blast
    have e: "dispatch_events st (p # ps) = Inr st2" using s False 1(1) 2(1) by simp
    from e 2(2) same_sources_trans[OF ss 2(3)] moved_trans[OF 1(5) 2(4)] show ?thesis
      by blast
  qed
qed

subsection \<open>The second loop of sink_dispatch\<close>

lemma dlist_free:
  assumes "dlist H h xs" "e \<notin> set (h # xs)"
  shows "dlist (H(e := None)) h xs"
  by (rule dlist_frame[OF assms(1)]) (use assms(2) in \<open>auto simp: nxt_def prv_def\<close>)

lemma reap_lists:
  assumes inv: "sink_inv st xs (y # ys)"
  shows "\<exists>H2. bindr (list_remove (nodes st) (SourceLink y)) (\<lambda>H1. list_init H1 (SourceLink y))
        = Inr H2
      \<and> dlist H2 SinkSources (map SourceLink xs)
      \<and> dlist H2 SinkRemoved (map SourceLink ys)
      \<and> (\<forall>p. H2 p \<noteq> None \<longleftrightarrow> nodes st p \<noteq> None)
      \<and> unlinked H2 (SourceLink y)
      \<and> (\<forall>b. b \<notin> set xs \<union> set (y # ys) \<longrightarrow>
             nxt H2 (SourceLink b) = nxt (nodes st) (SourceLink b)
             \<and> prv H2 (SourceLink b) = prv (nodes st) (SourceLink b))"
proof -
  let ?H = "nodes st" and ?e = "SourceLink y"
  from inv have d: "distinct (xs @ y # ys)"
    and l1: "dlist ?H SinkSources (map SourceLink xs)"
    and l2: "dlist ?H SinkRemoved (map SourceLink (y # ys))"
    by (simp_all add: sink_inv_def)
  have l2x: "dlist ?H SinkRemoved ([] @ ?e # map SourceLink ys)" using l2 by simp
  from dlist_remove[OF l2x] obtain H1 where
    r: "list_remove ?H ?e = Inr H1"
    and l2': "dlist H1 SinkRemoved (map SourceLink ys)"
    and al1: "\<forall>p. H1 p \<noteq> None \<longleftrightarrow> ?H p \<noteq> None"
    and fr1: "\<forall>p. p \<notin> set (SinkRemoved # [] @ ?e # map SourceLink ys) \<longrightarrow>
                nxt H1 p = nxt ?H p \<and> prv H1 p = prv ?H p"
    by auto
  have l1': "dlist H1 SinkSources (map SourceLink xs)"
    by (rule dlist_frame[OF l1]) (use d fr1 in auto)
  have "chain (nxt ?H) (prv ?H) SinkRemoved (?e # map SourceLink ys) SinkRemoved"
    using l2 by (simp add: dlist_def)
  from chain_alloc[OF this] have "?H ?e \<noteq> None" by simp
  with al1 have "H1 ?e \<noteq> None" by simp
  from list_init_ptrs[of H1 ?e, OF this] obtain H2 where
    i: "list_init H1 ?e = Inr H2"
    and N2: "nxt H2 = (nxt H1)(?e := Some ?e)" and P2: "prv H2 = (prv H1)(?e := Some ?e)"
    and al2: "\<forall>p. H2 p \<noteq> None \<longleftrightarrow> H1 p \<noteq> None"
    by blast
  have l1'': "dlist H2 SinkSources (map SourceLink xs)"
    by (rule dlist_frame[OF l1']) (use d N2 P2 in auto)
  have l2'': "dlist H2 SinkRemoved (map SourceLink ys)"
    by (rule dlist_frame[OF l2']) (use d N2 P2 in auto)
  have u: "unlinked H2 ?e" by (simp add: unlinked_def N2 P2)
  have fr: "nxt H2 (SourceLink b) = nxt ?H (SourceLink b)
      \<and> prv H2 (SourceLink b) = prv ?H (SourceLink b)" if "b \<notin> set xs \<union> set (y # ys)" for b
    using that fr1 N2 P2 by auto
  have "bindr (list_remove ?H ?e) (\<lambda>H1. list_init H1 ?e) = Inr H2" using r i by simp
  with l1'' l2'' al1 al2 u fr show ?thesis by auto
qed

lemma bindr_assoc: "bindr (bindr m f) g = bindr m (\<lambda>x. bindr (f x) g)"
  by (cases m) simp_all

lemma released_Some:
  "released (Some s) = (if refcount s = 1 then None else Some (s\<lparr>refcount := refcount s - 1\<rparr>))"
  by (simp add: released_def)

lemma reap_source_ok:
  assumes inv: "sink_inv st xs (y # ys)"
  shows "\<exists>st'. reap_source st y = Inr st' \<and> sink_inv st' xs ys
      \<and> srcs st' = (srcs st)(y := released (srcs st y))
      \<and> calls st' = calls st"
proof -
  let ?e = "SourceLink y"
  from inv have d: "distinct (xs @ y # ys)"
    and lo: "listed_ok (srcs st) xs (y # ys)"
    and lk: "links_ok (srcs st) (nodes st) xs (y # ys)"
    by (simp_all add: sink_inv_def)
  from lo obtain s where s: "srcs st y = Some s" "\<not> is_active s" "1 \<le> refcount s"
    by (auto simp: listed_ok_def)
  from reap_lists[OF inv] obtain H2 where
    rl: "bindr (list_remove (nodes st) ?e) (\<lambda>H1. list_init H1 ?e) = Inr H2"
    and l1: "dlist H2 SinkSources (map SourceLink xs)"
    and l2: "dlist H2 SinkRemoved (map SourceLink ys)"
    and al: "\<forall>p. H2 p \<noteq> None \<longleftrightarrow> nodes st p \<noteq> None"
    and u: "unlinked H2 ?e"
    and fr: "\<forall>b. b \<notin> set xs \<union> set (y # ys) \<longrightarrow>
             nxt H2 (SourceLink b) = nxt (nodes st) (SourceLink b)
             \<and> prv H2 (SourceLink b) = prv (nodes st) (SourceLink b)"
    by blast
  have eq: "reap_source st y = source_unref (st\<lparr>nodes := H2\<rparr>) y"
    unfolding reap_source_def using rl by (simp add: bindr_assoc[symmetric])
  have al': "(H2 p = None) = (nodes st p = None)" for p using al by metis
  have alloc: "(srcs st c = None) = (nodes st (SourceLink c) = None)" for c
    using lk by (simp add: links_ok_def)
  have yn: "y \<notin> set xs" "y \<notin> set ys" using d by auto
  have dis: "distinct (xs @ ys)" using d by simp
  have un: "unlinked H2 (SourceLink b)" if "srcs st b \<noteq> None" "b \<notin> set xs \<union> set ys" for b
  proof (cases "b = y")
    case True
    then show ?thesis using u by simp
  next
    case False
    with that have nb: "b \<notin> set xs \<union> set (y # ys)" by simp
    with that(1) have "unlinked (nodes st) (SourceLink b)" using lk by (simp add: links_ok_def)
    moreover have "unlinked H2 (SourceLink b) = unlinked (nodes st) (SourceLink b)"
      by (rule unlinked_cong) (use fr nb in simp_all)
    ultimately show ?thesis by simp
  qed
  show ?thesis
  proof (cases "refcount s = 1")
    case False
    with s(3) have two: "2 \<le> refcount s" by simp
    let ?S = "(srcs st)(y \<mapsto> s\<lparr>refcount := refcount s - 1\<rparr>)"
    let ?st' = "st\<lparr>nodes := H2, srcs := ?S\<rparr>"
    have r: "reap_source st y = Inr ?st'"
      unfolding eq using source_unref_keep[of "st\<lparr>nodes := H2\<rparr>" y s] s(1) two by simp
    have rel: "?S = (srcs st)(y := released (srcs st y))"
      using s(1) False by (simp add: released_Some)
    have lo': "listed_ok ?S xs ys"
      using lo yn s(2) unfolding listed_ok_def by auto
    have lk': "links_ok ?S H2 xs ys"
      unfolding links_ok_def
    proof (intro allI conjI impI)
      fix b
      show "(?S b = None) = (H2 (SourceLink b) = None)"
        using alloc[of b] alloc[of y] al'[of "SourceLink b"] s(1) by (cases "b = y") simp_all
      assume "?S b \<noteq> None \<and> b \<notin> set xs \<union> set ys"
      then have "srcs st b \<noteq> None" "b \<notin> set xs \<union> set ys"
        using s(1) by (cases "b = y"; simp)+
      then show "unlinked H2 (SourceLink b)" by (rule un)
    qed
    have "sink_inv ?st' xs ys" using dis l1 l2 lo' lk' by (simp add: sink_inv_def)
    with r rel show ?thesis by (intro exI[of _ ?st']) simp
  next
    case True
    let ?S = "(srcs st)(y := None)"
    let ?H = "H2(?e := None)"
    let ?st' = "st\<lparr>nodes := ?H, srcs := ?S,
        world := (if close_behavior s = SOURCE_CLOSE_FD_ON_DESTROY
                  then snd (xclose (world st) (fd s)) else world st)\<rparr>"
    have r: "reap_source st y = Inr ?st'"
      unfolding eq using source_unref_last[of "st\<lparr>nodes := H2\<rparr>" y s] s(1,2) True by simp
    have rel: "?S = (srcs st)(y := released (srcs st y))"
      using s(1) True by (simp add: released_Some)
    have l1': "dlist ?H SinkSources (map SourceLink xs)"
      by (rule dlist_free[OF l1]) (use yn in auto)
    have l2': "dlist ?H SinkRemoved (map SourceLink ys)"
      by (rule dlist_free[OF l2]) (use yn in auto)
    have lo': "listed_ok ?S xs ys"
      using lo yn unfolding listed_ok_def by auto
    have lk': "links_ok ?S ?H xs ys"
      unfolding links_ok_def
    proof (intro allI conjI impI)
      fix b
      show "(?S b = None) = (?H (SourceLink b) = None)"
        using alloc[of b] al'[of "SourceLink b"] by (cases "b = y") simp_all
      assume "?S b \<noteq> None \<and> b \<notin> set xs \<union> set ys"
      then have b: "b \<noteq> y" "srcs st b \<noteq> None" "b \<notin> set xs \<union> set ys"
        by (cases "b = y"; simp)+
      from un[OF b(2,3)] have "unlinked H2 (SourceLink b)" .
      moreover have "unlinked ?H (SourceLink b) = unlinked H2 (SourceLink b)"
        by (rule unlinked_cong) (use b(1) in \<open>simp_all add: nxt_def prv_def\<close>)
      ultimately show "unlinked ?H (SourceLink b)" by simp
    qed
    have "sink_inv ?st' xs ys" using dis l1' l2' lo' lk' by (simp add: sink_inv_def)
    with r rel show ?thesis by (intro exI[of _ ?st']) simp
  qed
qed

lemma chain_next_ex:
  "chain N P p xs q \<Longrightarrow> a \<in> set (p # xs) \<Longrightarrow> \<exists>b. N a = Some b"
  by (induction xs arbitrary: p) auto

lemma reap_loop_ok:
  assumes "sink_inv st xs ys" "pos = hd (map SourceLink ys @ [SinkRemoved])"
    "nxt (nodes st) pos = Some tmp" "length ys < n"
  shows "\<exists>st'. list_for_each_safe n reap_source SinkRemoved pos tmp st = Inr st'
      \<and> sink_inv st' xs []
      \<and> srcs st' = (\<lambda>b. if b \<in> set ys then released (srcs st b) else srcs st b)
      \<and> calls st' = calls st"
  using assms
proof (induction ys arbitrary: st n pos tmp)
  case Nil
  from Nil(4) obtain m where n: "n = Suc m" by (cases n) auto
  have "list_for_each_safe n reap_source SinkRemoved pos tmp st = Inr st"
    using Nil(2) n by simp
  with Nil(1) show ?case by auto
next
  case (Cons y ys)
  from Cons.prems(4) obtain m where n: "n = Suc m" "length ys < m" by (cases n) auto
  have pos: "pos = SourceLink y" using Cons.prems(2) by simp
  from Cons.prems(1) have l2: "dlist (nodes st) SinkRemoved (map SourceLink (y # ys))"
    and d: "distinct (xs @ y # ys)"
    by (simp_all add: sink_inv_def)
  then have "chain (nxt (nodes st)) (prv (nodes st)) (SourceLink y) (map SourceLink ys) SinkRemoved"
    by (simp add: dlist_def)
  from chain_hd[OF this] Cons.prems(3) pos
  have tmp: "tmp = hd (map SourceLink ys @ [SinkRemoved])" by simp
  from reap_source_ok[OF Cons.prems(1)] obtain st1 where
    1: "reap_source st y = Inr st1" "sink_inv st1 xs ys"
    "srcs st1 = (srcs st)(y := released (srcs st y))" "calls st1 = calls st"
    by blast
  from 1(2) have c1: "chain (nxt (nodes st1)) (prv (nodes st1)) SinkRemoved
      (map SourceLink ys) SinkRemoved"
    by (simp add: sink_inv_def dlist_def)
  have "tmp \<in> set (SinkRemoved # map SourceLink ys)"
    unfolding tmp by (cases ys) simp_all
  from chain_next_ex[OF c1 this] obtain tmp' where t': "nxt (nodes st1) tmp = Some tmp'"
    by blast
  then obtain tn where tn: "nodes st1 tmp = Some tn" "next tn = Some tmp'"
    by (auto dest: nxt_Some)
  from Cons.IH[OF 1(2) tmp t' n(2)] obtain st2 where
    2: "list_for_each_safe m reap_source SinkRemoved tmp tmp' st1 = Inr st2"
    "sink_inv st2 xs []"
    "srcs st2 = (\<lambda>b. if b \<in> set ys then released (srcs st1 b) else srcs st1 b)"
    "calls st2 = calls st1"
    by blast
  have e: "list_for_each_safe n reap_source SinkRemoved pos tmp st = Inr st2"
    using n(1) pos 1(1) tn 2(1) by simp
  have yn: "y \<notin> set ys" using d by simp
  have "srcs st2 = (\<lambda>b. if b \<in> set (y # ys) then released (srcs st b) else srcs st b)"
    unfolding 2(3) 1(3) using yn by (auto simp: fun_eq_iff)
  with e 2(2,4) 1(4) show ?case by auto
qed

lemma reap_ok:
  assumes "sink_inv st xs ys" "length ys < n"
  shows "\<exists>st'. list_for_each_safe_start n reap_source SinkRemoved st = Inr st'
      \<and> sink_inv st' xs []
      \<and> srcs st' = (\<lambda>b. if b \<in> set ys then released (srcs st b) else srcs st b)
      \<and> calls st' = calls st"
proof -
  from assms(1) have c: "chain (nxt (nodes st)) (prv (nodes st)) SinkRemoved
      (map SourceLink ys) SinkRemoved"
    by (simp add: sink_inv_def dlist_def)
  let ?pos = "hd (map SourceLink ys @ [SinkRemoved])"
  from chain_hd[OF c] have h: "nxt (nodes st) SinkRemoved = Some ?pos" by simp
  then obtain hn where hn: "nodes st SinkRemoved = Some hn" "next hn = Some ?pos"
    by (auto dest: nxt_Some)
  have "?pos \<in> set (SinkRemoved # map SourceLink ys)" by (cases ys) simp_all
  from chain_next_ex[OF c this] obtain tmp where t: "nxt (nodes st) ?pos = Some tmp" by blast
  then obtain pn where pn: "nodes st ?pos = Some pn" "next pn = Some tmp"
    by (auto dest: nxt_Some)
  have "list_for_each_safe_start n reap_source SinkRemoved st =
      list_for_each_safe n reap_source SinkRemoved ?pos tmp st"
    using hn pn by (simp add: list_for_each_safe_start_def)
  with reap_loop_ok[OF assms(1) refl t assms(2)] show ?thesis by simp
qed

subsection \<open>A pass of sink_dispatch\<close>



lemma moved_length:
  assumes "moved xs ys xs' ys'" "distinct (xs' @ ys')"
  shows "length ys' \<le> length xs + length ys"
proof -
  have "length ys' = card (set ys')" using assms(2) by (simp add: distinct_card)
  also have "\<dots> \<le> card (set xs \<union> set ys)"
    using assms(1) by (intro card_mono) (auto simp: moved_def)
  also have "\<dots> \<le> card (set xs) + card (set ys)" by (rule card_Un_le)
  also have "\<dots> \<le> length xs + length ys" by (intro add_mono card_length)
  finally show ?thesis .
qed







subsection \<open>The event capacity of a pass\<close>

lemma source_ref_calls: "source_ref st a = Inr st' \<Longrightarrow> calls st' = calls st"
  by (auto simp: source_ref_def split: option.splits if_splits)

lemma source_unref_calls: "source_unref st a = Inr st' \<Longrightarrow> calls st' = calls st"
  by (auto simp: source_unref_def source_destroy_def Let_def
      split: option.splits if_splits prod.splits)

lemma update_source_calls: "update_source st a f = Inr st' \<Longrightarrow> calls st' = calls st"
  by (auto simp: update_source_Inr_iff)

lemma source_remove_calls:
  assumes "source_remove st src = Inr st'"
  shows "calls st' = calls st"
proof (cases src)
  case None
  with assms show ?thesis by (simp add: source_remove_def)
next
  case (Some a)
  show ?thesis
  proof (cases "\<exists>s. srcs st a = Some s \<and> is_active s")
    case False
    with assms Some show ?thesis
      by (auto simp: source_remove_def bindr_Inr_iff)
  next
    case True
    then obtain s where s: "srcs st a = Some s" "is_active s" by blast
    obtain r st1 where e: "epoll_ctl_del st (epollfd st) (fd s) = (r, st1)"
      by (cases "epoll_ctl_del st (epollfd st) (fd s)")
    then have c1: "calls st1 = calls st"
      using epoll_ctl_del_fields(4)[of st "epollfd st" "fd s"] by simp
    from assms Some s e obtain st2 st3 st4 H6 where
      2: "(if close_behavior s = SOURCE_CLOSE_FD_ON_REMOVE
           then (case xclose (world st1) (fd s) of (r, w) \<Rightarrow>
                   update_source (st1\<lparr>world := w\<rparr>) a (\<lambda>s. s\<lparr>fd := r\<rparr>))
           else Inr st1) = Inr st2"
      and 3: "update_source st2 a (\<lambda>s. s\<lparr>is_active := False\<rparr>) = Inr st3"
      and 4: "source_unref st3 a = Inr st4"
      and 5: "update_source (st4\<lparr>nodes := H6\<rparr>) a (\<lambda>s. s\<lparr>sink := None\<rparr>) = Inr st'"
      by (auto simp: source_remove_def bindr_Inr_iff)
    from 2 have "calls st2 = calls st1"
      by (auto simp: update_source_Inr_iff split: if_splits prod.splits)
    moreover from 3 have "calls st3 = calls st2" by (rule update_source_calls)
    moreover from 4 have "calls st4 = calls st3" by (rule source_unref_calls)
    moreover from 5 have "calls st' = calls st4" by (auto dest: update_source_calls)
    ultimately show ?thesis using c1 by simp
  qed
qed

lemma do_action_calls: "do_action st x = Inr st' \<Longrightarrow> calls st' = calls st"
  by (cases x) (auto dest: source_remove_calls source_ref_calls source_unref_calls)

lemma run_callback_calls: "run_callback st xs = Inr st' \<Longrightarrow> calls st' = calls st"
proof (induction xs arbitrary: st)
  case Nil
  then show ?case by simp
next
  case (Cons x xs)
  then obtain st1 where "do_action st x = Inr st1" "run_callback st1 xs = Inr st'"
    by (auto simp: bindr_Inr_iff)
  with Cons.IH[of st1] do_action_calls[of st x st1] show ?case by simp
qed

lemma dispatch_events_calls:
  "dispatch_events st ep = Inr st' \<Longrightarrow> \<exists>cs. calls st' = calls st @ cs \<and> subseq cs ep"
proof (induction ep arbitrary: st)
  case Nil
  then show ?case by simp
next
  case (Cons p ps)
  from Cons.prems obtain s where s: "srcs st p = Some s"
    and r: "(if fd s = - 1 then dispatch_events st ps
             else bindr (run_callback (st\<lparr>calls := calls st @ [p]\<rparr>) (dispatch s))
                    (\<lambda>st'. dispatch_events st' ps)) = Inr st'"
    by (auto simp: bindr_Inr_iff)
  show ?case
  proof (cases "fd s = - 1")
    case True
    with r Cons.IH[of st] obtain cs where "calls st' = calls st @ cs" "subseq cs ps" by auto
    then show ?thesis by (auto intro: subseq_Cons')
  next
    case False
    with r obtain st1 where 1: "run_callback (st\<lparr>calls := calls st @ [p]\<rparr>) (dispatch s) = Inr st1"
      "dispatch_events st1 ps = Inr st'"
      by (auto simp: bindr_Inr_iff)
    from run_callback_calls[OF 1(1)] have c1: "calls st1 = calls st @ [p]" by simp
    from Cons.IH[OF 1(2)] obtain cs where "calls st' = calls st1 @ cs" "subseq cs ps" by blast
    with c1 have "calls st' = calls st @ (p # cs)" "subseq (p # cs) (p # ps)" by simp_all
    then show ?thesis by blast
  qed
qed

lemma reap_source_calls: "reap_source st a = Inr st' \<Longrightarrow> calls st' = calls st"
  by (auto simp: reap_source_def bindr_Inr_iff dest!: source_unref_calls)

lemma list_for_each_safe_calls:
  "list_for_each_safe n reap_source h pos tmp st = Inr st' \<Longrightarrow> calls st' = calls st"
proof (induction n arbitrary: pos tmp st)
  case 0
  then show ?case by simp
next
  case (Suc n)
  show ?case
  proof (cases "pos = h")
    case True
    with Suc.prems show ?thesis by simp
  next
    case False
    with Suc.prems obtain src st1 tmp' where "reap_source st src = Inr st1"
      "list_for_each_safe n reap_source h tmp tmp' st1 = Inr st'"
      by (auto simp: bindr_Inr_iff)
    with Suc.IH[of tmp tmp' st1] reap_source_calls[of st src st1] show ?thesis by simp
  qed
qed

lemma sink_dispatch_calls:
  assumes "sink_dispatch n st = Inr (rc, st')"
  shows "\<exists>cs. calls st' = calls st @ cs
     \<and> subseq cs (take 32 (List.map_filter (map_of (interest st)) (ready st)))"
proof (cases "epollfd st \<in> set (open_fds (world st))")
  case False
  with assms have "calls st' = calls st"
    by (auto simp: sink_dispatch_def epoll_wait_def)
  then show ?thesis by simp
next
  case True
  define ep where "ep = take 32 (List.map_filter (map_of (interest st)) (ready st))"
  from True have w: "epoll_wait st (epollfd st) 32 = (int (length ep), ep, st)"
    by (simp add: epoll_wait_def Let_def ep_def)
  have "sink_dispatch n st =
      bindr (dispatch_events st ep) (\<lambda>st2.
      bindr (list_for_each_safe_start n reap_source SinkRemoved st2) (\<lambda>st3. Inr (0, st3)))"
    unfolding sink_dispatch_def w by simp
  with assms obtain st2 where 2: "dispatch_events st ep = Inr st2"
    and 3: "list_for_each_safe_start n reap_source SinkRemoved st2 = Inr st'"
    by (auto simp: bindr_Inr_iff)
  from 3 obtain pos tmp where "list_for_each_safe n reap_source SinkRemoved pos tmp st2 = Inr st'"
    by (auto simp: list_for_each_safe_start_def bindr_Inr_iff)
  then have "calls st' = calls st2" by (rule list_for_each_safe_calls)
  with dispatch_events_calls[OF 2] show ?thesis unfolding ep_def by auto
qed

lemma dispatch_events_idle:
  assumes "\<forall>p \<in> set ep. \<exists>s. srcs st p = Some s \<and> fd s \<noteq> - 1 \<and> dispatch s = []"
  shows "dispatch_events st ep = Inr (st\<lparr>calls := calls st @ ep\<rparr>)"
  using assms
proof (induction ep arbitrary: st)
  case Nil
  then show ?case by simp
next
  case (Cons p ps)
  from Cons.prems obtain s where s: "srcs st p = Some s" "fd s \<noteq> - 1" "dispatch s = []"
    by auto
  let ?st1 = "st\<lparr>calls := calls st @ [p]\<rparr>"
  have "dispatch_events st (p # ps) = dispatch_events ?st1 ps" using s by simp
  also have "\<dots> = Inr (?st1\<lparr>calls := calls ?st1 @ ps\<rparr>)"
    using Cons.prems by (intro Cons.IH) simp
  finally show ?case by simp
qed

lemma crowded_state_ready: "ready_sources (crowded_state k) = [0..<k]"
proof -
  have m: "map_of (map (\<lambda>a. (10 + int a, a)) [0..<k]) (10 + int a) = Some a" if "a < k" for a
  proof -
    have "distinct (map fst (map (\<lambda>a. (10 + int a, a)) [0..<k]))"
      by (simp add: distinct_map comp_def inj_on_def)
    then show ?thesis using that by (simp add: map_of_eq_Some_iff)
  qed
  have "List.map_filter (map_of (map (\<lambda>a. (10 + int a, a)) [0..<k]))
          (map (\<lambda>a. 10 + int a) xs) = xs" if "set xs \<subseteq> {..<k}" for xs
    using that by (induction xs) (simp_all add: List.map_filter_simps m)
  moreover have "set [0..<k] \<subseteq> {..<k}" by auto
  ultimately show ?thesis
    by (simp add: ready_sources_def crowded_state_def)
qed

lemma crowded_state_dispatch:
  assumes "0 < n"
  shows "sink_dispatch n (crowded_state k) =
     Inr (0, (crowded_state k)\<lparr>calls := take 32 [0..<k]\<rparr>)"
proof -
  let ?st = "crowded_state k"
  define ep where "ep = take 32 [0..<k]"
  have w: "epoll_wait ?st (epollfd ?st) 32 = (int (length ep), ep, ?st)"
    using crowded_state_ready[of k]
    by (simp add: epoll_wait_def Let_def ep_def ready_sources_def) (simp add: crowded_state_def)
  have "\<forall>p \<in> set ep. \<exists>s. srcs ?st p = Some s \<and> fd s \<noteq> - 1 \<and> dispatch s = []"
    by (auto simp: ep_def crowded_state_def dest!: in_set_takeD)
  from dispatch_events_idle[OF this]
  have d: "dispatch_events ?st ep = Inr (?st\<lparr>calls := ep\<rparr>)" by (simp add: crowded_state_def)
  obtain m where n: "n = Suc m" using assms by (cases n) auto
  have r: "list_for_each_safe_start n reap_source SinkRemoved (?st\<lparr>calls := ep\<rparr>) =
      Inr (?st\<lparr>calls := ep\<rparr>)"
    by (simp add: list_for_each_safe_start_def n crowded_state_def self_node_def)
  show ?thesis unfolding sink_dispatch_def w using d r by (simp add: ep_def[symmetric])
qed

lemma sink_dispatch_returns:
  assumes "sink_inv st xs ys" and "epollfd st \<in> set (open_fds (world st))"
    and "callbacks_ok st (pass_script st (take 32 (ready_sources st)))"
    and "\<forall>p \<in> set (take 32 (ready_sources st)). srcs st p \<noteq> None"
    and "length xs + length ys < n"
  shows "\<exists>st'. sink_dispatch n st = Inr (0, st')"
proof -
  define ep where "ep = take 32 (ready_sources st)"
  from assms(2) have w: "epoll_wait st (epollfd st) 32 = (int (length ep), ep, st)"
    by (simp add: epoll_wait_def Let_def ep_def ready_sources_def)
  from dispatch_events_ok[OF assms(1), of ep] assms(3,4) obtain st2 xs' ys' where
    2: "dispatch_events st ep = Inr st2" "sink_inv st2 xs' ys'" "moved xs ys xs' ys'"
    unfolding ep_def by blast
  from 2(2) have "distinct (xs' @ ys')" by (simp add: sink_inv_def)
  from moved_length[OF 2(3) this] assms(5) have "length ys' < n" by simp
  from reap_ok[OF 2(2) this] obtain st3 where
    3: "list_for_each_safe_start n reap_source SinkRemoved st2 = Inr st3"
    by blast
  have "sink_dispatch n st = Inr (0, st3)"
    unfolding sink_dispatch_def w using 2(1) 3 by simp
  then show ?thesis by blast
qed

text \<open>
  Claim C10. \<^verbatim>\<open>sink_dispatch\<close> asks the multiplexer for at most 32 events and
  so receives at most 32, the first 32 of the sources it has to report. When
  the pass returns, the callbacks it has invoked are, in order, a subsequence
  of these: at most 32 callbacks run, and a ready source that is not among
  the first 32 reported has no callback invoked in this pass, so that only a
  later pass can serve it. On a well-formed reactor whose callbacks drop no
  more than the external references of a source the pass does return.
\<close>

theorem sink_dispatch_at_most_32:
  "(case epoll_wait st (epollfd st) 32 of
      (count, ep, st1) \<Rightarrow>
        count \<le> 32 \<and> length ep \<le> 32
        \<and> (0 \<le> count \<longrightarrow> ep = take 32 (ready_sources st) \<and> count = int (length ep)))
   \<and> (\<forall>rc st'. sink_dispatch n st = Inr (rc, st') \<longrightarrow>
        (\<exists>cs. calls st' = calls st @ cs \<and> length cs \<le> 32
           \<and> subseq cs (take 32 (ready_sources st))
           \<and> (\<forall>p. p \<notin> set (take 32 (ready_sources st)) \<longrightarrow> p \<notin> set cs)))
   \<and> (sink_inv st xs ys \<and> epollfd st \<in> set (open_fds (world st))
        \<and> callbacks_ok st (pass_script st (take 32 (ready_sources st)))
        \<and> (\<forall>p \<in> set (take 32 (ready_sources st)). srcs st p \<noteq> None)
        \<and> length xs + length ys < n \<longrightarrow>
        (\<exists>st'. sink_dispatch n st = Inr (0, st')))"
proof (intro conjI allI impI)
  show "case epoll_wait st (epollfd st) 32 of
      (count, ep, st1) \<Rightarrow>
        count \<le> 32 \<and> length ep \<le> 32
        \<and> (0 \<le> count \<longrightarrow> ep = take 32 (ready_sources st) \<and> count = int (length ep))"
    by (simp add: epoll_wait_def Let_def ready_sources_def)
next
  fix rc st'
  assume r: "sink_dispatch n st = Inr (rc, st')"
  from sink_dispatch_calls[OF r] obtain cs where
    c: "calls st' = calls st @ cs" "subseq cs (take 32 (ready_sources st))"
    unfolding ready_sources_def by blast
  from c(2) have "length cs \<le> length (take 32 (ready_sources st))"
    by (rule list_emb_length)
  then have "length cs \<le> 32" by simp
  moreover from c(2) have "set cs \<subseteq> set (take 32 (ready_sources st))"
    by (auto elim: list_emb_set)
  ultimately show "\<exists>cs. calls st' = calls st @ cs \<and> length cs \<le> 32
           \<and> subseq cs (take 32 (ready_sources st))
           \<and> (\<forall>p. p \<notin> set (take 32 (ready_sources st)) \<longrightarrow> p \<notin> set cs)"
    using c by blast
next
  assume "sink_inv st xs ys \<and> epollfd st \<in> set (open_fds (world st))
        \<and> callbacks_ok st (pass_script st (take 32 (ready_sources st)))
        \<and> (\<forall>p \<in> set (take 32 (ready_sources st)). srcs st p \<noteq> None)
        \<and> length xs + length ys < n"
  then show "\<exists>st'. sink_dispatch n st = Inr (0, st')"
    by (intro sink_dispatch_returns[of st xs ys n]) simp_all
qed

lemma crowded_state_inv: "sink_inv (crowded_state 33) [0..<33] []"
proof -
  have "dlist (nodes (crowded_state 33)) SinkSources (map SourceLink [0..<33])"
    by (simp add: crowded_state_def dlist_def nxt_def prv_def upt_rec)
  moreover have "dlist (nodes (crowded_state 33)) SinkRemoved (map SourceLink [])"
    by (simp add: crowded_state_def dlist_def nxt_def prv_def self_node_def)
  moreover have "listed_ok (srcs (crowded_state 33)) [0..<33] []"
    by (simp add: crowded_state_def listed_ok_def)
  moreover have "links_ok (srcs (crowded_state 33)) (nodes (crowded_state 33)) [0..<33] []"
    by (simp add: crowded_state_def links_ok_def)
  ultimately show ?thesis by (simp add: sink_inv_def)
qed

theorem sink_dispatch_at_most_32_witness:
  "sink_inv (crowded_state 33) [0..<33] []
   \<and> ready_sources (crowded_state 33) = [0..<33]
   \<and> sink_dispatch 34 (crowded_state 33) = Inr (0, (crowded_state 33)\<lparr>calls := [0..<32]\<rparr>)
   \<and> (\<exists>cs. [0..<32] = calls (crowded_state 33) @ cs \<and> length cs \<le> 32 \<and> 32 \<notin> set cs)
   \<and> (\<exists>st'. sink_dispatch 34 (crowded_state 33) = Inr (0, st'))"
proof -
  let ?st = "crowded_state 33"
  note t = sink_dispatch_at_most_32[of ?st 34 "[0..<33]" "[]"]
  have v: "sink_dispatch 34 ?st = Inr (0, ?st\<lparr>calls := [0..<32]\<rparr>)"
    using crowded_state_dispatch[of 34 33] by simp
  from t v obtain cs where
    c: "calls (?st\<lparr>calls := [0..<32]\<rparr>) = calls ?st @ cs" "length cs \<le> 32"
    "\<forall>p. p \<notin> set (take 32 (ready_sources ?st)) \<longrightarrow> p \<notin> set cs"
    by blast
  from c(3) have n: "32 \<notin> set cs" by (simp add: crowded_state_ready)
  have "callbacks_ok ?st (pass_script ?st (take 32 (ready_sources ?st)))"
    by (simp add: callbacks_ok_def pass_script_def crowded_state_def held_def)
  moreover have "\<forall>p \<in> set (take 32 (ready_sources ?st)). srcs ?st p \<noteq> None"
    by (simp add: crowded_state_ready) (simp add: crowded_state_def)
  moreover have "epollfd ?st \<in> set (open_fds (world ?st))" by (simp add: crowded_state_def)
  moreover have "length [0..<33] + length ([] :: nat list) < (34 :: nat)" by simp
  ultimately have "\<exists>st'. sink_dispatch 34 ?st = Inr (0, st')"
    using t crowded_state_inv by blast
  with c(1,2) n v crowded_state_inv crowded_state_ready[of 33] show ?thesis by auto
qed

end
